theory Spec2Isabelle
  imports Complex_Main "HOL-Library.Multiset"
begin

section \<open>Data model (models.py)\<close>

text \<open>
  The two tables of \<^verbatim>\<open>models.py\<close>. Columns keep their names, prefixed by the table
  (\<open>o_\<close> for \<^verbatim>\<open>orders\<close>, \<open>t_\<close> for \<^verbatim>\<open>transactions\<close>). Integer columns are Python
  integers (\<open>int\<close>), primary keys and timestamps are naturals, a Float column holds the
  rational value of its double.
\<close>

datatype OrderStatus = OPEN | PARTIALLY_DEALT | DEALT | CANCELLED

record Order =
  o_id :: nat
  o_order_serial :: string
  o_user_address :: string
  o_market_address :: string
  o_outcome :: string
  o_price :: rat
  o_amount :: int
  o_side :: string
  o_market_state :: string
  o_created_at :: nat

record Transaction =
  t_id :: nat
  t_order_serial :: string
  t_user_address :: string
  t_market_address :: string
  t_outcome :: string
  t_side :: string
  t_deal_amount :: int
  t_remaining_amount :: int
  t_price :: rat
  t_status :: OrderStatus
  t_created_at :: nat
  t_dealt_at :: "nat option"

text \<open>The request body of \<^verbatim>\<open>POST /orders/\<close> (class \<^verbatim>\<open>OrderCreate\<close>).\<close>

record OrderCreate =
  oc_user_address :: string
  oc_market_address :: string
  oc_outcome :: string
  oc_price :: rat
  oc_amount :: int
  oc_side :: string

text \<open>The database: both tables, rows in insertion order.\<close>

record db =
  orders :: "Order list"
  transactions :: "Transaction list"

section \<open>Errors and the outside world\<close>

text \<open>
  \<open>HTTPException\<close> carries the status code and the literal part of the detail. The other
  constructors are exceptions no handler catches; the framework answers them with status 500.
\<close>

datatype error =
    HTTPException int string
  | AttributeError
  | ValueError
  | Web3Exception
  | IntegrityError

fun status_code :: "error \<Rightarrow> int" where
  "status_code (HTTPException c d) = c"
| "status_code e = 500"

definition client_error :: "error \<Rightarrow> bool" where
  "client_error e = (400 \<le> status_code e \<and> status_code e < 500)"

text \<open>One \<^verbatim>\<open>transferShares\<close> call as it reaches the market contract.\<close>

record transfer =
  tr_market :: string
  tr_seller :: string
  tr_buyer :: string
  tr_is_yes :: bool
  tr_price :: int
  tr_amount :: int

text \<open>
  What building, signing, sending and awaiting the transaction ends in: an exception, or a
  receipt with its status.
\<close>

datatype settlement = Raises | Receipt int

text \<open>Line 166: the transfer went through when the receipt's status is not 0.\<close>

fun settled :: "settlement \<Rightarrow> bool" where
  "settled Raises = False"
| "settled (Receipt status) = (status \<noteq> 0)"

text \<open>
  The collaborators the handlers call: \<^verbatim>\<open>Web3.to_checksum_address\<close> (\<open>None\<close> when it
  raises), the market contract's \<^verbatim>\<open>getMarketState().call()\<close> (\<open>None\<close> when the call
  raises), the settlement of a transfer given the transfers this request sent before it,
  \<^verbatim>\<open>uuid.uuid4()\<close>, and \<^verbatim>\<open>datetime.utcnow()\<close> as a function of how many readings the
  request has taken.
\<close>

record env =
  to_checksum_address :: "string \<Rightarrow> string option"
  getMarketState :: "string \<Rightarrow> string option"
  transferShares :: "transfer list \<Rightarrow> transfer \<Rightarrow> settlement"
  uuid4 :: string
  utcnow :: "nat \<Rightarrow> nat"

section \<open>Helpers\<close>

text \<open>\<^verbatim>\<open>str.lower()\<close> on the ASCII letters.\<close>

definition lower_char :: "char \<Rightarrow> char" where
  "lower_char c =
     (if (65::nat) \<le> of_char c \<and> of_char c \<le> (90::nat)
      then char_of (of_char c + (32::nat)) else c)"

definition lower :: "string \<Rightarrow> string" where
  "lower s = map lower_char s"

text \<open>\<^verbatim>\<open>query.first()\<close>: the first row that passes the filter, \<open>None\<close> without one.\<close>

fun first :: "('a \<Rightarrow> bool) \<Rightarrow> 'a list \<Rightarrow> 'a option" where
  "first P [] = None"
| "first P (x # xs) = (if P x then Some x else first P xs)"

text \<open>The primary key the database gives a new row: one above every key in the table.\<close>

definition next_id :: "nat list \<Rightarrow> nat" where
  "next_id ids = Suc (fold max ids 0)"

section \<open>Fixed-point price: \<^verbatim>\<open>int(transaction_price * 10**18)\<close>\<close>

text \<open>\<^verbatim>\<open>int.bit_length()\<close>.\<close>

fun bit_length :: "nat \<Rightarrow> nat" where
  "bit_length n = (if n = 0 then 0 else Suc (bit_length (n div 2)))"

declare bit_length.simps [simp del]

text \<open>
  Rounding a positive rational \<open>n / d\<close> to the nearest double (53-bit significand, ties to
  even): the result is \<open>r * 2 ^ k\<close> for the returned pair \<open>(r, k)\<close>.
\<close>

definition round_double :: "nat \<Rightarrow> nat \<Rightarrow> nat \<times> int" where
  "round_double n d =
     (let k0 = int (bit_length n) - int (bit_length d) - 53;
          k = (if (if k0 \<ge> 0 then n < d * 2 ^ nat k0 * 2 ^ 53
                   else n * 2 ^ nat (- k0) < d * 2 ^ 53) then k0 else k0 + 1);
          num = (if k \<ge> 0 then n else n * 2 ^ nat (- k));
          den = (if k \<ge> 0 then d * 2 ^ nat k else d);
          q = num div den;
          rem = num mod den
      in (if 2 * rem > den \<or> (2 * rem = den \<and> odd q) then q + 1 else q, k))"

text \<open>
  The product is a double multiplication (\<open>10**18\<close> is a double exactly), rounded once;
  \<^verbatim>\<open>int()\<close> truncates toward zero and raises on infinity (\<open>None\<close>).
\<close>

definition fixed_point_pos :: "nat \<Rightarrow> nat \<Rightarrow> int option" where
  "fixed_point_pos n d =
     (case round_double n d of (r, k) \<Rightarrow>
        if k \<ge> 0 then (if k + int (bit_length r) > 1024 then None
                       else Some (int (r * 2 ^ nat k)))
        else Some (int (r div 2 ^ nat (- k))))"

definition fixed_point :: "rat \<Rightarrow> int option" where
  "fixed_point p =
     (case quotient_of p of (a, b) \<Rightarrow>
        if a = 0 then Some 0
        else map_option (\<lambda>v. if a < 0 then - v else v)
               (fixed_point_pos (nat \<bar>a\<bar> * 10 ^ 18) (nat b)))"

section \<open>Matching (\<^verbatim>\<open>match_order\<close>)\<close>

text \<open>
  \<^verbatim>\<open>ORDER BY price ASC\<close> and \<^verbatim>\<open>DESC\<close>: rows of equal price stay in table order (SQL
  leaves their order open).
\<close>

definition order_by_asc :: "Order list \<Rightarrow> Order list" where
  "order_by_asc xs = sort_key o_price xs"

definition order_by_desc :: "Order list \<Rightarrow> Order list" where
  "order_by_desc xs = sort_key (\<lambda>x. - o_price x) xs"

definition match_order :: "db \<Rightarrow> Order \<Rightarrow> Order list" where
  "match_order d new_order =
     (if o_amount new_order \<le> 0 then []
      else
        let opposite_side = (if o_side new_order = ''buy'' then ''sell'' else ''buy'');
            query = filter (\<lambda>x. o_market_address x = o_market_address new_order
                               \<and> o_outcome x = o_outcome new_order
                               \<and> o_side x = opposite_side
                               \<and> o_amount x > 0
                               \<and> o_market_state x = ''Active'') (orders d)
        in if o_side new_order = ''buy''
           then order_by_asc (filter (\<lambda>x. o_price x \<le> o_price new_order) query)
           else order_by_desc (filter (\<lambda>x. o_price x \<ge> o_price new_order) query))"

section \<open>Order submission (\<^verbatim>\<open>create_order\<close>)\<close>

text \<open>
  Lines 171-175 and 179-183: the accounting update of one Transaction for a fill. The
  first component of the state is the Transaction, the second the number of clock readings
  taken so far (\<^verbatim>\<open>utcnow()\<close> is read only when the status became DEALT).
\<close>

definition fill_transaction ::
  "env \<Rightarrow> int \<Rightarrow> rat \<Rightarrow> Transaction \<times> nat \<Rightarrow> Transaction \<times> nat" where
  "fill_transaction e matched_amount transaction_price tk =
     (case tk of (t, k) \<Rightarrow>
        let t1 = t\<lparr>t_deal_amount := t_deal_amount t + matched_amount\<rparr>;
            t2 = t1\<lparr>t_remaining_amount := t_remaining_amount t1 - matched_amount\<rparr>;
            t3 = t2\<lparr>t_price := transaction_price\<rparr>;
            t4 = t3\<lparr>t_status := (if t_remaining_amount t3 > 0 then PARTIALLY_DEALT else DEALT)\<rparr>
        in if t_status t4 = DEALT then (t4\<lparr>t_dealt_at := Some (utcnow e k)\<rparr>, Suc k)
           else (t4, k))"

text \<open>
  The unit of work while the loop runs: the session's view of the database, the
  \<^verbatim>\<open>db_transaction\<close> object, the local \<^verbatim>\<open>remaining_amount\<close>, the transfers sent so far
  with what each ended in, and the clock readings taken.
\<close>

record uow =
  u_db :: db
  u_db_transaction :: Transaction
  u_remaining_amount :: int
  u_transfers :: "(transfer \<times> settlement) list"
  u_ticks :: nat

text \<open>Writing an object back to its row (\<^verbatim>\<open>UPDATE ... WHERE id = ?\<close>) and deleting it.\<close>

definition update_transaction :: "Transaction \<Rightarrow> db \<Rightarrow> db" where
  "update_transaction t d =
     d\<lparr>transactions := map (\<lambda>x. if t_id x = t_id t then t else x) (transactions d)\<rparr>"

definition update_order :: "Order \<Rightarrow> db \<Rightarrow> db" where
  "update_order x d = d\<lparr>orders := map (\<lambda>y. if o_id y = o_id x then x else y) (orders d)\<rparr>"

definition delete_order :: "Order \<Rightarrow> db \<Rightarrow> db" where
  "delete_order x d = d\<lparr>orders := filter (\<lambda>y. o_id y \<noteq> o_id x) (orders d)\<rparr>"

text \<open>
  Lines 171-199, after a receipt with a non-zero status: both Transactions are updated,
  both orders' amounts are reduced, and an order that reached 0 is deleted.
\<close>

definition apply_fill :: "env \<Rightarrow> Order \<Rightarrow> Order \<Rightarrow> Transaction \<Rightarrow> int \<Rightarrow> rat \<Rightarrow> uow \<Rightarrow> uow" where
  "apply_fill e db_order matched_order matched_transaction matched_amount transaction_price s =
     (case fill_transaction e matched_amount transaction_price (u_db_transaction s, u_ticks s) of
        (db_transaction', k1) \<Rightarrow>
      case fill_transaction e matched_amount transaction_price (matched_transaction, k1) of
        (matched_transaction', k2) \<Rightarrow>
        let d1 = update_transaction matched_transaction'
                   (update_transaction db_transaction' (u_db s));
            matched_order' = matched_order\<lparr>o_amount := o_amount matched_order - matched_amount\<rparr>;
            remaining_amount = u_remaining_amount s - matched_amount;
            db_order' = db_order\<lparr>o_amount := remaining_amount\<rparr>;
            d2 = update_order db_order' (update_order matched_order' d1);
            d3 = (if o_amount matched_order' = 0 then delete_order matched_order' d2 else d2);
            d4 = (if remaining_amount = 0 then delete_order db_order' d3 else d3)
        in s\<lparr>u_db := d4, u_db_transaction := db_transaction',
              u_remaining_amount := remaining_amount, u_ticks := k2\<rparr>)"

text \<open>
  Lines 150-168 up to the receipt: the arguments are built inside the \<^verbatim>\<open>try\<close>, so a
  failing address conversion or \<^verbatim>\<open>int()\<close> is caught like a failing call. \<open>None\<close> means
  an exception was raised before \<^verbatim>\<open>transferShares\<close> was reached.
\<close>

definition build_transfer :: "env \<Rightarrow> string \<Rightarrow> Order \<Rightarrow> Order \<Rightarrow> int \<Rightarrow> rat \<Rightarrow> transfer option" where
  "build_transfer e market db_order matched_order matched_amount transaction_price =
     (case to_checksum_address e (if o_side db_order = ''sell'' then o_user_address db_order
                                   else o_user_address matched_order) of
        None \<Rightarrow> None
      | Some seller \<Rightarrow>
     (case to_checksum_address e (if o_side db_order = ''buy'' then o_user_address db_order
                                   else o_user_address matched_order) of
        None \<Rightarrow> None
      | Some buyer \<Rightarrow>
     (case fixed_point transaction_price of
        None \<Rightarrow> None
      | Some p \<Rightarrow>
          Some \<lparr>tr_market = market, tr_seller = seller, tr_buyer = buyer,
                tr_is_yes = (lower (o_outcome db_order) = ''yes''),
                tr_price = p, tr_amount = matched_amount\<rparr>)))"

text \<open>
  The loop of lines 132-206 over the candidates. The result is the exception that left the
  loop, if any, and the unit of work at that point.
\<close>

fun match_loop :: "env \<Rightarrow> string \<Rightarrow> Order \<Rightarrow> Order list \<Rightarrow> uow \<Rightarrow> error option \<times> uow" where
  "match_loop e market db_order [] s = (None, s)"
| "match_loop e market db_order (matched_order # rest) s =
     (if u_remaining_amount s = 0 then (None, s)
      else
        case first (\<lambda>t. t_order_serial t = o_order_serial matched_order)
               (transactions (u_db s)) of
          None \<Rightarrow> (Some (HTTPException 400 ''Matched transaction not found''), s)
        | Some matched_transaction \<Rightarrow>
            let matched_amount = min (u_remaining_amount s) (o_amount matched_order);
                transaction_price = o_price matched_order
            in case build_transfer e market db_order matched_order matched_amount
                      transaction_price of
                 None \<Rightarrow> (Some (HTTPException 400 ''Transfer shares failed''), s)
               | Some tx \<Rightarrow>
                   let r = transferShares e (map fst (u_transfers s)) tx;
                       s1 = s\<lparr>u_transfers := u_transfers s @ [(tx, r)]\<rparr>
                   in case r of
                        Raises \<Rightarrow> (Some (HTTPException 400 ''Transfer shares failed''), s1)
                      | Receipt status \<Rightarrow>
                          if status = 0
                          then (Some (HTTPException 400 ''Transfer shares failed''), s1)
                          else match_loop e market db_order rest
                                 (apply_fill e db_order matched_order matched_transaction
                                    matched_amount transaction_price s1))"

text \<open>
  What a request leaves behind: the response or the exception, the committed database, the
  session's uncommitted view when the handler was left, and the transfers sent.
\<close>

record outcome =
  response :: "error + Order"
  store :: db
  session :: db
  transfers :: "(transfer \<times> settlement) list"

definition rejected :: "error \<Rightarrow> db \<Rightarrow> outcome" where
  "rejected err d = \<lparr>response = Inl err, store = d, session = d, transfers = []\<rparr>"

text \<open>Lines 101-111 and 114-124: the two objects built from the request.\<close>

definition make_db_order :: "env \<Rightarrow> db \<Rightarrow> OrderCreate \<Rightarrow> string \<Rightarrow> string \<Rightarrow> Order" where
  "make_db_order e d order user_address market_state =
     \<lparr>o_id = next_id (map o_id (orders d)),
      o_order_serial = uuid4 e,
      o_user_address = user_address,
      o_market_address = oc_market_address order,
      o_outcome = oc_outcome order,
      o_price = oc_price order,
      o_amount = oc_amount order,
      o_side = oc_side order,
      o_market_state = market_state,
      o_created_at = utcnow e 0\<rparr>"

definition make_db_transaction :: "env \<Rightarrow> db \<Rightarrow> OrderCreate \<Rightarrow> string \<Rightarrow> Transaction" where
  "make_db_transaction e d order user_address =
     \<lparr>t_id = next_id (map t_id (transactions d)),
      t_order_serial = uuid4 e,
      t_user_address = user_address,
      t_market_address = oc_market_address order,
      t_outcome = oc_outcome order,
      t_side = oc_side order,
      t_deal_amount = 0,
      t_remaining_amount = oc_amount order,
      t_price = oc_price order,
      t_status = OPEN,
      t_created_at = utcnow e 1,
      t_dealt_at = None\<rparr>"

text \<open>
  Lines 128-244. The two rows are in the session when \<^verbatim>\<open>begin_nested()\<close> has flushed; the
  savepoint covers the whole loop, so an exception from the loop rolls the session back to
  it, and nothing is committed because \<^verbatim>\<open>db.commit()\<close> is not reached. The response has
  the fields of the Order.
\<close>

definition run_matching :: "env \<Rightarrow> db \<Rightarrow> string \<Rightarrow> Order \<Rightarrow> Transaction \<Rightarrow> outcome" where
  "run_matching e d market db_order db_transaction =
     (let savepoint = \<lparr>orders = orders d @ [db_order],
                       transactions = transactions d @ [db_transaction]\<rparr>;
          s0 = \<lparr>u_db = savepoint, u_db_transaction = db_transaction,
                u_remaining_amount = o_amount db_order, u_transfers = [], u_ticks = 2\<rparr>
      in case match_loop e market db_order (match_order savepoint db_order) s0 of
           (Some err, s) \<Rightarrow>
             \<lparr>response = Inl err, store = d, session = savepoint, transfers = u_transfers s\<rparr>
         | (None, s) \<Rightarrow>
             if u_remaining_amount s > 0
             then
               let db_order' = db_order\<lparr>o_amount := u_remaining_amount s\<rparr>;
                   d' = update_order db_order' (u_db s)
               in \<lparr>response = Inr db_order', store = d', session = d',
                   transfers = u_transfers s\<rparr>
             else
               let d' = delete_order db_order (u_db s)
               in \<lparr>response = Inr (db_order\<lparr>o_amount := 0\<rparr>), store = d', session = d',
                   transfers = u_transfers s\<rparr>)"

text \<open>
  \<^verbatim>\<open>create_order\<close>: the market gate of lines 90-94, the two objects, the flush (where the
  unique index on \<^verbatim>\<open>orders.order_serial\<close> is checked), then the matching.
\<close>

definition create_order :: "env \<Rightarrow> db \<Rightarrow> OrderCreate \<Rightarrow> outcome" where
  "create_order e d order =
     (case to_checksum_address e (oc_market_address order) of
        None \<Rightarrow> rejected ValueError d
      | Some market \<Rightarrow>
     (case getMarketState e market of
        None \<Rightarrow> rejected Web3Exception d
      | Some market_state \<Rightarrow>
        if market_state \<noteq> ''Active''
        then rejected (HTTPException 400 ''Market not in active phase'') d
        else
     (case to_checksum_address e (oc_user_address order) of
        None \<Rightarrow> rejected ValueError d
      | Some user_address \<Rightarrow>
        if uuid4 e \<in> set (map o_order_serial (orders d))
        then rejected IntegrityError d
        else run_matching e d market
               (make_db_order e d order user_address market_state)
               (make_db_transaction e d order user_address))))"

section \<open>Cancellation (\<^verbatim>\<open>cancel_order\<close>)\<close>

text \<open>
  Line 250 reads \<^verbatim>\<open>db_order.order_serial\<close> before line 251 tests \<^verbatim>\<open>db_order\<close>: without
  the Order the attribute access on \<^verbatim>\<open>None\<close> raises.
\<close>

definition cancel_order :: "env \<Rightarrow> db \<Rightarrow> nat \<Rightarrow> outcome" where
  "cancel_order e d order_id =
     (case first (\<lambda>x. o_id x = order_id) (orders d) of
        None \<Rightarrow> rejected AttributeError d
      | Some db_order \<Rightarrow>
     (case first (\<lambda>t. t_order_serial t = o_order_serial db_order) (transactions d) of
        None \<Rightarrow> rejected (HTTPException 404 ''Order not found'') d
      | Some db_transaction \<Rightarrow>
        if t_status db_transaction \<notin> {OPEN, PARTIALLY_DEALT}
        then rejected (HTTPException 400 ''Order cannot be cancelled'') d
        else
     (case to_checksum_address e (o_market_address db_order) of
        None \<Rightarrow> rejected ValueError d
      | Some market \<Rightarrow>
     (case getMarketState e market of
        None \<Rightarrow> rejected Web3Exception d
      | Some market_state \<Rightarrow>
        if market_state \<noteq> ''Active''
        then rejected (HTTPException 400 ''Market not in active phase'') d
        else
          let d' = delete_order db_order
                     (update_transaction (db_transaction\<lparr>t_status := CANCELLED\<rparr>) d)
          in \<lparr>response = Inr db_order, store = d', session = d', transfers = []\<rparr>))))"

section \<open>The specification's words\<close>

text \<open>
  The eligibility of a resting order \<open>x\<close> for an incoming order, as the specification
  words it: opposite side, same market and outcome, amount above 0, market state Active,
  and the price bound of the incoming side.
\<close>

definition eligible :: "Order \<Rightarrow> Order \<Rightarrow> bool" where
  "eligible new_order x =
     (o_market_address x = o_market_address new_order \<and> o_outcome x = o_outcome new_order
      \<and> o_amount x > 0 \<and> o_market_state x = ''Active''
      \<and> ((o_side new_order = ''buy'' \<and> o_side x = ''sell'' \<and> o_price x \<le> o_price new_order)
         \<or> (o_side new_order = ''sell'' \<and> o_side x = ''buy'' \<and> o_price x \<ge> o_price new_order)))"

text \<open>The quantity a Transaction accounts for: filled plus unfilled.\<close>

definition tx_total :: "Transaction \<Rightarrow> int" where
  "tx_total t = t_deal_amount t + t_remaining_amount t"

text \<open>
  The status the specification derives from \<open>remaining_amount\<close> and the original amount:
  equal to the original gives OPEN, strictly between 0 and the original gives
  PARTIALLY_DEALT, zero gives DEALT; other values have no status.
\<close>

definition spec_status :: "int \<Rightarrow> int \<Rightarrow> OrderStatus option" where
  "spec_status original remaining =
     (if remaining = original then Some OPEN
      else if 0 < remaining \<and> remaining < original then Some PARTIALLY_DEALT
      else if remaining = 0 then Some DEALT
      else None)"

text \<open>
  A Transaction agrees with the specification: its status is CANCELLED or the one derived
  from its amounts (the original amount being deal plus remaining), \<open>dealt_at\<close> is set
  exactly when the status is DEALT, and nothing negative was dealt.
\<close>

definition tx_ok :: "Transaction \<Rightarrow> bool" where
  "tx_ok t =
     ((t_status t = CANCELLED \<or> spec_status (tx_total t) (t_remaining_amount t) = Some (t_status t))
      \<and> (t_dealt_at t \<noteq> None \<longleftrightarrow> t_status t = DEALT)
      \<and> 0 \<le> t_deal_amount t)"

text \<open>
  A resting order has a positive amount and a Transaction of its serial that is OPEN or
  PARTIALLY_DEALT with the same remaining amount.
\<close>

definition resting_ok :: "db \<Rightarrow> Order \<Rightarrow> bool" where
  "resting_ok d x =
     (0 < o_amount x \<and>
      (\<exists>t\<in>set (transactions d).
         t_order_serial t = o_order_serial x \<and> t_remaining_amount t = o_amount x \<and>
         (t_status t = OPEN \<or> t_status t = PARTIALLY_DEALT)))"

text \<open>
  The stores the handlers produce: primary keys and serials are distinct in both tables,
  every Transaction agrees with the specification, every Order rests.
\<close>

definition wf_db :: "db \<Rightarrow> bool" where
  "wf_db d =
     (distinct (map t_id (transactions d)) \<and>
      distinct (map t_order_serial (transactions d)) \<and>
      distinct (map o_id (orders d)) \<and>
      distinct (map o_order_serial (orders d)) \<and>
      (\<forall>t\<in>set (transactions d). tx_ok t) \<and>
      (\<forall>x\<in>set (orders d). resting_ok d x))"

text \<open>
  What holds of the unit of work before each iteration of the loop, for the incoming order
  and the candidates still to come.
\<close>

definition loop_inv :: "Order \<Rightarrow> Order list \<Rightarrow> uow \<Rightarrow> bool" where
  "loop_inv db_order ms s =
     (distinct (map t_id (transactions (u_db s))) \<and>
      distinct (map t_order_serial (transactions (u_db s))) \<and>
      distinct (map o_id (orders (u_db s))) \<and>
      distinct (map o_order_serial (orders (u_db s))) \<and>
      (\<forall>t\<in>set (transactions (u_db s)). tx_ok t) \<and>
      u_db_transaction s \<in> set (transactions (u_db s)) \<and>
      t_order_serial (u_db_transaction s) = o_order_serial db_order \<and>
      t_remaining_amount (u_db_transaction s) = u_remaining_amount s \<and>
      t_status (u_db_transaction s) \<noteq> CANCELLED \<and>
      (ms \<noteq> [] \<longrightarrow> 0 \<le> u_remaining_amount s) \<and>
      (\<forall>x\<in>set (orders (u_db s)).
         if o_id x = o_id db_order then x = db_order\<lparr>o_amount := u_remaining_amount s\<rparr>
         else resting_ok (u_db s) x \<and> o_order_serial x \<noteq> o_order_serial db_order) \<and>
      distinct ms \<and> set ms \<subseteq> set (orders (u_db s)) \<and>
      (\<forall>m\<in>set ms. o_id m \<noteq> o_id db_order))"

section \<open>Example data\<close>

definition env_ok :: env where
  "env_ok = \<lparr>to_checksum_address = Some, getMarketState = (\<lambda>a. Some ''Active''),
             transferShares = (\<lambda>h t. Receipt 1), uuid4 = ''s3'', utcnow = (\<lambda>k. 100 + k)\<rparr>"

definition env_resolved :: env where
  "env_resolved = env_ok\<lparr>getMarketState := (\<lambda>a. Some ''Resolved'')\<rparr>"

definition env_down :: env where
  "env_down = env_ok\<lparr>getMarketState := (\<lambda>a. None)\<rparr>"

definition env_second_reverts :: env where
  "env_second_reverts =
     env_ok\<lparr>transferShares := (\<lambda>h t. if h = [] then Receipt 1 else Receipt 0)\<rparr>"

definition sell1 :: Order where
  "sell1 = \<lparr>o_id = 1, o_order_serial = ''s1'', o_user_address = ''0xA'',
            o_market_address = ''0xM'', o_outcome = ''yes'', o_price = 1 / 2, o_amount = 5,
            o_side = ''sell'', o_market_state = ''Active'', o_created_at = 10\<rparr>"

definition sell2 :: Order where
  "sell2 = \<lparr>o_id = 2, o_order_serial = ''s2'', o_user_address = ''0xB'',
            o_market_address = ''0xM'', o_outcome = ''yes'', o_price = 3 / 4, o_amount = 10,
            o_side = ''sell'', o_market_state = ''Active'', o_created_at = 20\<rparr>"

definition txn1 :: Transaction where
  "txn1 = \<lparr>t_id = 1, t_order_serial = ''s1'', t_user_address = ''0xA'',
           t_market_address = ''0xM'', t_outcome = ''yes'', t_side = ''sell'',
           t_deal_amount = 0, t_remaining_amount = 5, t_price = 1 / 2, t_status = OPEN,
           t_created_at = 11, t_dealt_at = None\<rparr>"

definition txn2 :: Transaction where
  "txn2 = \<lparr>t_id = 2, t_order_serial = ''s2'', t_user_address = ''0xB'',
           t_market_address = ''0xM'', t_outcome = ''yes'', t_side = ''sell'',
           t_deal_amount = 0, t_remaining_amount = 10, t_price = 3 / 4, t_status = OPEN,
           t_created_at = 21, t_dealt_at = None\<rparr>"

definition book :: db where
  "book = \<lparr>orders = [sell1, sell2], transactions = [txn1, txn2]\<rparr>"

definition buy_req :: OrderCreate where
  "buy_req = \<lparr>oc_user_address = ''0xC'', oc_market_address = ''0xM'', oc_outcome = ''yes'',
              oc_price = 3 / 4, oc_amount = 8, oc_side = ''buy''\<rparr>"

definition buy_order :: Order where
  "buy_order = \<lparr>o_id = 3, o_order_serial = ''s3'', o_user_address = ''0xC'',
                o_market_address = ''0xM'', o_outcome = ''yes'', o_price = 3 / 4, o_amount = 8,
                o_side = ''buy'', o_market_state = ''Active'', o_created_at = 100\<rparr>"

definition buy_txn :: Transaction where
  "buy_txn = \<lparr>t_id = 3, t_order_serial = ''s3'', t_user_address = ''0xC'',
              t_market_address = ''0xM'', t_outcome = ''yes'', t_side = ''buy'',
              t_deal_amount = 0, t_remaining_amount = 8, t_price = 3 / 4, t_status = OPEN,
              t_created_at = 101, t_dealt_at = None\<rparr>"

definition sell55 :: Order where
  "sell55 = \<lparr>o_id = 1, o_order_serial = ''s1'', o_user_address = ''0xA'',
             o_market_address = ''0xM'', o_outcome = ''yes'',
             o_price = 2476979795053773 / 4503599627370496, o_amount = 5,
             o_side = ''sell'', o_market_state = ''Active'', o_created_at = 10\<rparr>"

definition txn55 :: Transaction where
  "txn55 = \<lparr>t_id = 1, t_order_serial = ''s1'', t_user_address = ''0xA'',
            t_market_address = ''0xM'', t_outcome = ''yes'', t_side = ''sell'',
            t_deal_amount = 0, t_remaining_amount = 5,
            t_price = 2476979795053773 / 4503599627370496, t_status = OPEN,
            t_created_at = 11, t_dealt_at = None\<rparr>"

definition book55 :: db where
  "book55 = \<lparr>orders = [sell55], transactions = [txn55]\<rparr>"

definition buy_req55 :: OrderCreate where
  "buy_req55 = \<lparr>oc_user_address = ''0xC'', oc_market_address = ''0xM'', oc_outcome = ''yes'',
                oc_price = 2476979795053773 / 4503599627370496, oc_amount = 5,
                oc_side = ''buy''\<rparr>"

section \<open>Evaluating the fixed-point conversion\<close>

lemma bit_length_numeral:
  "bit_length 0 = 0"
  "bit_length 1 = 1"
  "bit_length (Suc 0) = Suc 0"
  "bit_length (numeral (Num.Bit0 n)) = Suc (bit_length (numeral n))"
  "bit_length (numeral (Num.Bit1 n)) = Suc (bit_length (numeral n))"
  by (subst bit_length.simps,
      simp add: numeral_Bit0_div_2 numeral_Bit1_div_2 bit_length.simps[of 0])+

lemma quotient_of_dyadic:
  assumes "odd a"
  shows "quotient_of (of_int a / 2 ^ n) = (a, 2 ^ n)"
proof -
  have c: "coprime a (2 ^ n)"
    using assms by (simp add: coprime_power_right_iff coprime_right_2_iff_odd)
  have "of_int a / 2 ^ n = Fract a (2 ^ n)"
    by (simp add: Fract_of_int_quotient)
  then show ?thesis
    using c by (simp add: quotient_of_Fract Rat.normalize_def coprime_iff_gcd_eq_1)
qed

lemma quotient_of_half: "quotient_of (1 / 2) = (1, 2)"
  using quotient_of_dyadic[of 1 1] by simp

lemma quotient_of_three_quarters: "quotient_of (3 / 4) = (3, 4)"
  using quotient_of_dyadic[of 3 2] by simp

lemma fixed_point_half: "fixed_point (1 / 2) = Some 500000000000000000"
  by (simp add: fixed_point_def quotient_of_half fixed_point_pos_def round_double_def
      bit_length_numeral Let_def)

lemma fixed_point_three_quarters: "fixed_point (3 / 4) = Some 750000000000000000"
  by (simp add: fixed_point_def quotient_of_three_quarters fixed_point_pos_def
      round_double_def bit_length_numeral Let_def)

lemmas example_defs =
  env_ok_def env_resolved_def env_down_def env_second_reverts_def sell1_def sell2_def
  txn1_def txn2_def book_def buy_req_def buy_order_def buy_txn_def

section \<open>Matching\<close>

lemma sorted_desc_iff:
  "sorted (map (\<lambda>x. - o_price x) ys) = sorted (rev (map o_price ys))"
  by (simp add: sorted_map sorted_wrt_rev sorted_wrt_map flip: rev_map)

section \<open>Cancellation\<close>

text \<open>
  C7 (the code at the failing input). Cancelling an order id that is not in the book:
  the handler reads \<^verbatim>\<open>db_order.order_serial\<close> of \<^verbatim>\<open>None\<close> before it tests for the missing
  Order, so the request ends in an uncaught AttributeError (status 500) and not in the 404
  of line 252. The store is unchanged.
\<close>

theorem cancel_order_missing_order:
  "response (cancel_order env_ok book 7) = Inl AttributeError \<and>
   status_code AttributeError = 500 \<and>
   store (cancel_order env_ok book 7) = book"
  by (simp add: cancel_order_def rejected_def book_def sell1_def sell2_def)

section \<open>Submission: the market gate\<close>

text \<open>
  C8 (as the code has it). When the market contract reports a state other than "Active",
  the submission is rejected with HTTP 400 "Market not in active phase"; when the
  market-state call itself raises, nothing catches the exception, so the request ends in
  that exception (a server error, not a client error). In both cases the store is the one
  before the request and no transfer has been sent.
\<close>

theorem create_order_market_gate:
  assumes "to_checksum_address e (oc_market_address order) = Some market"
    and "getMarketState e market \<noteq> Some ''Active''"
  shows "store (create_order e d order) = d \<and>
         session (create_order e d order) = d \<and>
         transfers (create_order e d order) = [] \<and>
         response (create_order e d order)
           = Inl (case getMarketState e market of
                    None \<Rightarrow> Web3Exception
                  | Some st \<Rightarrow> HTTPException 400 ''Market not in active phase'') \<and>
         client_error (HTTPException 400 ''Market not in active phase'') \<and>
         \<not> client_error Web3Exception"
  using assms
  by (simp add: create_order_def rejected_def client_error_def split: option.splits)

theorem create_order_market_gate_witness:
  "to_checksum_address env_resolved (oc_market_address buy_req) = Some ''0xM'' \<and>
   getMarketState env_resolved ''0xM'' \<noteq> Some ''Active'' \<and>
   store (create_order env_resolved book buy_req) = book \<and>
   transfers (create_order env_resolved book buy_req) = [] \<and>
   response (create_order env_resolved book buy_req)
     = Inl (HTTPException 400 ''Market not in active phase'')"
proof -
  have h1: "to_checksum_address env_resolved (oc_market_address buy_req) = Some ''0xM''"
    by (simp add: env_resolved_def env_ok_def buy_req_def)
  have h2: "getMarketState env_resolved ''0xM'' \<noteq> Some ''Active''"
    by (simp add: env_resolved_def env_ok_def)
  have h3: "getMarketState env_resolved ''0xM'' = Some ''Resolved''"
    by (simp add: env_resolved_def env_ok_def)
  show ?thesis
    using h1 h2 h3 create_order_market_gate [OF h1 h2, of book] by simp
qed

theorem create_order_oracle_failure_counterexample:
  "response (create_order env_down book buy_req) = Inl Web3Exception \<and>
   \<not> client_error Web3Exception"
  by (simp add: create_order_def rejected_def client_error_def env_down_def env_ok_def
      buy_req_def)

section \<open>Cancellation: the frame\<close>

lemma first_Some: "first P xs = Some x \<Longrightarrow> P x \<and> x \<in> set xs"
  by (induction xs) (auto split: if_splits)

lemma first_None: "first P xs = None \<longleftrightarrow> (\<forall>x \<in> set xs. \<not> P x)"
  by (induction xs) auto

lemma cancel_order_success_aux:
  assumes "cancel_order e d order_id = out" and "response out = Inr r"
  shows "\<exists>db_order db_transaction.
           first (\<lambda>x. o_id x = order_id) (orders d) = Some db_order \<and>
           first (\<lambda>t. t_order_serial t = o_order_serial db_order) (transactions d)
             = Some db_transaction \<and>
           store out = delete_order db_order
                     (update_transaction (db_transaction\<lparr>t_status := CANCELLED\<rparr>) d)"
  using assms unfolding cancel_order_def
  by (auto split: option.splits if_splits simp: rejected_def Let_def)

lemma cancel_order_success:
  assumes "response (cancel_order e d order_id) = Inr r"
  shows "\<exists>db_order db_transaction.
           first (\<lambda>x. o_id x = order_id) (orders d) = Some db_order \<and>
           first (\<lambda>t. t_order_serial t = o_order_serial db_order) (transactions d)
             = Some db_transaction \<and>
           store (cancel_order e d order_id) = delete_order db_order
                     (update_transaction (db_transaction\<lparr>t_status := CANCELLED\<rparr>) d)"
  using cancel_order_success_aux [OF refl assms] .

text \<open>
  C10. A cancellation that succeeds removes from the orders table the rows with the
  cancelled id and nothing else; the transactions table (primary keys distinct) keeps its
  length and order, every row keeps every field but \<open>t_status\<close>, the row of the order's
  Transaction gets status CANCELLED, and every row with another primary key is unchanged.
\<close>

theorem cancel_order_frame:
  assumes "response (cancel_order e d order_id) = Inr r"
    and pk: "distinct (map t_id (transactions d))"
  shows "\<exists>db_order db_transaction.
           first (\<lambda>x. o_id x = order_id) (orders d) = Some db_order \<and>
           first (\<lambda>t. t_order_serial t = o_order_serial db_order) (transactions d)
             = Some db_transaction \<and>
           orders (store (cancel_order e d order_id))
             = filter (\<lambda>x. o_id x \<noteq> order_id) (orders d) \<and>
           length (transactions (store (cancel_order e d order_id)))
             = length (transactions d) \<and>
           (\<forall>i < length (transactions d).
              transactions (store (cancel_order e d order_id)) ! i
                = (transactions d ! i)
                    \<lparr>t_status := t_status (transactions (store (cancel_order e d order_id)) ! i)\<rparr>
              \<and> (t_id (transactions d ! i) = t_id db_transaction \<longrightarrow>
                   transactions (store (cancel_order e d order_id)) ! i
                     = db_transaction\<lparr>t_status := CANCELLED\<rparr>)
              \<and> (t_id (transactions d ! i) \<noteq> t_id db_transaction \<longrightarrow>
                   transactions (store (cancel_order e d order_id)) ! i = transactions d ! i))"
proof -
  from cancel_order_success [OF assms(1)] obtain db_order db_transaction where
    o: "first (\<lambda>x. o_id x = order_id) (orders d) = Some db_order" and
    t: "first (\<lambda>t. t_order_serial t = o_order_serial db_order) (transactions d)
          = Some db_transaction" and
    s: "store (cancel_order e d order_id) = delete_order db_order
          (update_transaction (db_transaction\<lparr>t_status := CANCELLED\<rparr>) d)"
    by blast
  have oid: "o_id db_order = order_id"
    using first_Some [OF o] by simp
  have row: "transactions d ! i = db_transaction"
    if "i < length (transactions d)" "t_id (transactions d ! i) = t_id db_transaction" for i
    using that first_Some [OF t] pk
    by (meson distinct_map inj_onD nth_mem)
  show ?thesis
    apply (rule exI [of _ db_order], rule exI [of _ db_transaction])
    apply (simp add: o t s oid delete_order_def update_transaction_def row)
    done
qed

theorem cancel_order_frame_witness:
  "response (cancel_order env_ok book 1) = Inr sell1 \<and>
   distinct (map t_id (transactions book)) \<and>
   orders (store (cancel_order env_ok book 1)) = [sell2] \<and>
   transactions (store (cancel_order env_ok book 1)) = [txn1\<lparr>t_status := CANCELLED\<rparr>, txn2]"
proof -
  have r: "response (cancel_order env_ok book 1) = Inr sell1"
    by (simp add: cancel_order_def rejected_def example_defs Let_def)
  have pk: "distinct (map t_id (transactions book))"
    by (simp add: example_defs)
  have s: "store (cancel_order env_ok book 1)
           = \<lparr>orders = [sell2], transactions = [txn1\<lparr>t_status := CANCELLED\<rparr>, txn2]\<rparr>"
    by (simp add: cancel_order_def rejected_def example_defs delete_order_def
        update_transaction_def Let_def)
  from cancel_order_frame [OF r pk] show ?thesis
    using r s pk by simp
qed

section \<open>The matching loop, one iteration at a time\<close>

lemma match_loop_Cons_cases:
  obtains
    (filled) "u_remaining_amount s = 0"
      "match_loop e market db_order (m # rest) s = (None, s)"
  | (no_transaction) "u_remaining_amount s \<noteq> 0"
      "first (\<lambda>t. t_order_serial t = o_order_serial m) (transactions (u_db s)) = None"
      "match_loop e market db_order (m # rest) s
         = (Some (HTTPException 400 ''Matched transaction not found''), s)"
  | (not_sent) mt where "u_remaining_amount s \<noteq> 0"
      "first (\<lambda>t. t_order_serial t = o_order_serial m) (transactions (u_db s)) = Some mt"
      "build_transfer e market db_order m (min (u_remaining_amount s) (o_amount m)) (o_price m)
         = None"
      "match_loop e market db_order (m # rest) s
         = (Some (HTTPException 400 ''Transfer shares failed''), s)"
  | (failed) mt tx r where "u_remaining_amount s \<noteq> 0"
      "first (\<lambda>t. t_order_serial t = o_order_serial m) (transactions (u_db s)) = Some mt"
      "build_transfer e market db_order m (min (u_remaining_amount s) (o_amount m)) (o_price m)
         = Some tx"
      "transferShares e (map fst (u_transfers s)) tx = r" "r = Raises \<or> r = Receipt 0"
      "match_loop e market db_order (m # rest) s
         = (Some (HTTPException 400 ''Transfer shares failed''),
            s\<lparr>u_transfers := u_transfers s @ [(tx, r)]\<rparr>)"
  | (settled) mt tx st where "u_remaining_amount s \<noteq> 0"
      "first (\<lambda>t. t_order_serial t = o_order_serial m) (transactions (u_db s)) = Some mt"
      "build_transfer e market db_order m (min (u_remaining_amount s) (o_amount m)) (o_price m)
         = Some tx"
      "transferShares e (map fst (u_transfers s)) tx = Receipt st" "st \<noteq> 0"
      "match_loop e market db_order (m # rest) s
         = match_loop e market db_order rest
             (apply_fill e db_order m mt (min (u_remaining_amount s) (o_amount m)) (o_price m)
                (s\<lparr>u_transfers := u_transfers s @ [(tx, Receipt st)]\<rparr>))"
proof (cases "u_remaining_amount s = 0")
  case True
  then show ?thesis using filled by simp
next
  case rem: False
  show ?thesis
  proof (cases "first (\<lambda>t. t_order_serial t = o_order_serial m) (transactions (u_db s))")
    case None
    then show ?thesis using rem no_transaction by simp
  next
    case mt: (Some mt)
    show ?thesis
    proof (cases "build_transfer e market db_order m
                    (min (u_remaining_amount s) (o_amount m)) (o_price m)")
      case None
      then show ?thesis using rem mt not_sent by (simp add: Let_def)
    next
      case tx: (Some tx)
      show ?thesis
      proof (cases "transferShares e (map fst (u_transfers s)) tx")
        case Raises
        then show ?thesis using rem mt tx failed [of mt tx Raises] by (simp add: Let_def)
      next
        case (Receipt st)
        show ?thesis
        proof (cases "st = 0")
          case True
          then show ?thesis
            using rem mt tx Receipt failed [of mt tx "Receipt 0"] by (simp add: Let_def)
        next
          case False
          then show ?thesis
            using rem mt tx Receipt settled [of mt tx st] by (simp add: Let_def)
        qed
      qed
    qed
  qed
qed

declare match_loop.simps(2) [simp del]

lemma apply_fill_transfers [simp]:
  "u_transfers (apply_fill e db_order m mt a p s) = u_transfers s"
  by (simp add: apply_fill_def Let_def split: prod.splits)

lemma apply_fill_remaining [simp]:
  "u_remaining_amount (apply_fill e db_order m mt a p s) = u_remaining_amount s - a"
  by (simp add: apply_fill_def Let_def split: prod.splits)

lemma create_order_cases_aux:
  assumes "create_order e d order = out"
  shows "(\<exists>err. out = rejected err d) \<or>
         (\<exists>market user_address.
            to_checksum_address e (oc_market_address order) = Some market \<and>
            getMarketState e market = Some ''Active'' \<and>
            to_checksum_address e (oc_user_address order) = Some user_address \<and>
            uuid4 e \<notin> set (map o_order_serial (orders d)) \<and>
            out = run_matching e d market (make_db_order e d order user_address ''Active'')
                    (make_db_transaction e d order user_address))"
  using assms unfolding create_order_def
  by (auto split: option.splits if_splits)

lemma create_order_cases:
  obtains (rejected) err where "create_order e d order = rejected err d"
  | (matching) market user_address where
      "to_checksum_address e (oc_market_address order) = Some market"
      "getMarketState e market = Some ''Active''"
      "to_checksum_address e (oc_user_address order) = Some user_address"
      "uuid4 e \<notin> set (map o_order_serial (orders d))"
      "create_order e d order
         = run_matching e d market (make_db_order e d order user_address ''Active'')
             (make_db_transaction e d order user_address)"
  using create_order_cases_aux [OF refl, of e d order] by blast

lemma cancel_order_orders_aux:
  assumes "cancel_order e d order_id = out"
  shows "set (orders (store out)) \<subseteq> set (orders d)"
  using assms unfolding cancel_order_def
  by (auto split: option.splits if_splits
      simp: rejected_def Let_def delete_order_def update_transaction_def)

lemma cancel_order_orders:
  "set (orders (store (cancel_order e d order_id))) \<subseteq> set (orders d)"
  using cancel_order_orders_aux [OF refl] .

section \<open>Transfers sent by the loop\<close>

lemma match_loop_transfers:
  assumes "list_all (\<lambda>c. settled (snd c)) (u_transfers s)"
  shows "case match_loop e market db_order ms s of
           (None, s') \<Rightarrow> list_all (\<lambda>c. settled (snd c)) (u_transfers s')
         | (Some err, s') \<Rightarrow>
             list_all (\<lambda>c. settled (snd c)) (u_transfers s') \<or>
             (err = HTTPException 400 ''Transfer shares failed'' \<and>
              (\<exists>pre tx r. u_transfers s' = pre @ [(tx, r)] \<and> \<not> settled r \<and>
                 list_all (\<lambda>c. settled (snd c)) pre))"
  using assms
proof (induction ms arbitrary: s)
  case Nil
  then show ?case by simp
next
  case (Cons m rest)
  show ?case
  proof (cases rule: match_loop_Cons_cases [of s e market db_order m rest])
    case filled
    then show ?thesis using Cons.prems by simp
  next
    case no_transaction
    then show ?thesis using Cons.prems by simp
  next
    case (not_sent mt)
    then show ?thesis using Cons.prems by simp
  next
    case (failed mt tx r)
    then show ?thesis using Cons.prems by auto
  next
    case (settled mt tx st)
    have "list_all (\<lambda>c. settled (snd c))
            (u_transfers (apply_fill e db_order m mt (min (u_remaining_amount s) (o_amount m))
               (o_price m) (s\<lparr>u_transfers := u_transfers s @ [(tx, Receipt st)]\<rparr>)))"
      using Cons.prems settled(5) by simp
    from Cons.IH [OF this] show ?thesis
      by (simp only: settled(6))
  qed
qed

section \<open>Resting amounts stay positive\<close>

lemma apply_fill_amounts:
  assumes "\<forall>x\<in>set (orders (u_db s)). o_id x \<noteq> o_id db_order \<longrightarrow> 0 < o_amount x"
    and "a \<le> o_amount m"
  shows "\<forall>x\<in>set (orders (u_db (apply_fill e db_order m mt a p s))).
           o_id x \<noteq> o_id db_order \<longrightarrow> 0 < o_amount x"
  using assms
  by (auto simp: apply_fill_def Let_def update_order_def delete_order_def
      update_transaction_def split: prod.splits)

lemma match_loop_amounts:
  assumes "\<forall>x\<in>set (orders (u_db s)). o_id x \<noteq> o_id db_order \<longrightarrow> 0 < o_amount x"
  shows "\<forall>x\<in>set (orders (u_db (snd (match_loop e market db_order ms s)))).
           o_id x \<noteq> o_id db_order \<longrightarrow> 0 < o_amount x"
  using assms
proof (induction ms arbitrary: s)
  case Nil
  then show ?case by simp
next
  case (Cons m rest)
  show ?case
  proof (cases rule: match_loop_Cons_cases [of s e market db_order m rest])
    case (settled mt tx st)
    have "\<forall>x\<in>set (orders (u_db (apply_fill e db_order m mt
              (min (u_remaining_amount s) (o_amount m)) (o_price m)
              (s\<lparr>u_transfers := u_transfers s @ [(tx, Receipt st)]\<rparr>)))).
            o_id x \<noteq> o_id db_order \<longrightarrow> 0 < o_amount x"
      by (rule apply_fill_amounts) (use Cons.prems in simp_all)
    from Cons.IH [OF this] show ?thesis
      by (simp only: settled(6))
  qed (use Cons.prems in simp_all)
qed

lemma run_matching_amounts:
  assumes "\<forall>x\<in>set (orders d). 0 < o_amount x"
  shows "\<forall>x\<in>set (orders (store (run_matching e d market db_order db_transaction))).
           0 < o_amount x"
proof -
  let ?savepoint = "\<lparr>orders = orders d @ [db_order],
                     transactions = transactions d @ [db_transaction]\<rparr>"
  let ?s0 = "\<lparr>u_db = ?savepoint, u_db_transaction = db_transaction,
              u_remaining_amount = o_amount db_order, u_transfers = [], u_ticks = 2\<rparr>"
  let ?r = "match_loop e market db_order (match_order ?savepoint db_order) ?s0"
  have "\<forall>x\<in>set (orders (u_db ?s0)). o_id x \<noteq> o_id db_order \<longrightarrow> 0 < o_amount x"
    using assms by auto
  from match_loop_amounts [OF this]
  have inv: "\<forall>x\<in>set (orders (u_db (snd ?r))). o_id x \<noteq> o_id db_order \<longrightarrow> 0 < o_amount x" .
  show ?thesis
    using inv assms
    by (cases ?r; cases "fst ?r")
       (auto simp: run_matching_def Let_def update_order_def delete_order_def)
qed

text \<open>
  C6. If every Order in the store has a positive amount before a request, every Order in
  the store has a positive amount after it, for a submission and for a cancellation: an
  order whose amount reached 0 in the matching is deleted, and the incoming order stays in
  the book only with a positive unfilled amount.
\<close>

theorem orders_stay_positive:
  assumes "\<forall>x\<in>set (orders d). 0 < o_amount x"
  shows "(\<forall>x\<in>set (orders (store (create_order e d order))). 0 < o_amount x) \<and>
         (\<forall>x\<in>set (orders (store (cancel_order e d order_id))). 0 < o_amount x)"
proof
  show "\<forall>x\<in>set (orders (store (create_order e d order))). 0 < o_amount x"
  proof (cases rule: create_order_cases [of e d order])
    case (rejected err)
    then show ?thesis using assms by (simp add: rejected_def)
  next
    case (matching market user_address)
    then show ?thesis using run_matching_amounts [OF assms] by simp
  qed
next
  show "\<forall>x\<in>set (orders (store (cancel_order e d order_id))). 0 < o_amount x"
    using cancel_order_orders [of e d order_id] assms by blast
qed

section \<open>The example book\<close>

lemmas run_defs =
  match_loop.simps create_order_def run_matching_def make_db_order_def make_db_transaction_def
  rejected_def next_id_def match_order_def order_by_asc_def order_by_desc_def
  build_transfer_def lower_def lower_char_def apply_fill_def fill_transaction_def
  update_transaction_def update_order_def delete_order_def Let_def

lemma example_all_settle:
  "create_order env_ok book buy_req =
     \<lparr>response = Inr (buy_order\<lparr>o_amount := 0\<rparr>),
      store = \<lparr>orders = [sell2\<lparr>o_amount := 7\<rparr>],
                transactions =
                  [txn1\<lparr>t_deal_amount := 5, t_remaining_amount := 0, t_status := DEALT,
                         t_dealt_at := Some 102\<rparr>,
                   txn2\<lparr>t_deal_amount := 3, t_remaining_amount := 7,
                         t_status := PARTIALLY_DEALT\<rparr>,
                   buy_txn\<lparr>t_deal_amount := 8, t_remaining_amount := 0, t_status := DEALT,
                            t_dealt_at := Some 103\<rparr>]\<rparr>,
      session = \<lparr>orders = [sell2\<lparr>o_amount := 7\<rparr>],
                  transactions =
                    [txn1\<lparr>t_deal_amount := 5, t_remaining_amount := 0, t_status := DEALT,
                           t_dealt_at := Some 102\<rparr>,
                     txn2\<lparr>t_deal_amount := 3, t_remaining_amount := 7,
                           t_status := PARTIALLY_DEALT\<rparr>,
                     buy_txn\<lparr>t_deal_amount := 8, t_remaining_amount := 0, t_status := DEALT,
                              t_dealt_at := Some 103\<rparr>]\<rparr>,
      transfers =
        [(\<lparr>tr_market = ''0xM'', tr_seller = ''0xA'', tr_buyer = ''0xC'', tr_is_yes = True,
           tr_price = 500000000000000000, tr_amount = 5\<rparr>, Receipt 1),
         (\<lparr>tr_market = ''0xM'', tr_seller = ''0xB'', tr_buyer = ''0xC'', tr_is_yes = True,
           tr_price = 750000000000000000, tr_amount = 3\<rparr>, Receipt 1)]\<rparr>"
  by (simp add: run_defs example_defs fixed_point_half fixed_point_three_quarters)

lemma example_second_reverts:
  "create_order env_second_reverts book buy_req =
     \<lparr>response = Inl (HTTPException 400 ''Transfer shares failed''),
      store = book,
      session = \<lparr>orders = [sell1, sell2, buy_order],
                  transactions = [txn1, txn2, buy_txn]\<rparr>,
      transfers =
        [(\<lparr>tr_market = ''0xM'', tr_seller = ''0xA'', tr_buyer = ''0xC'', tr_is_yes = True,
           tr_price = 500000000000000000, tr_amount = 5\<rparr>, Receipt 1),
         (\<lparr>tr_market = ''0xM'', tr_seller = ''0xB'', tr_buyer = ''0xC'', tr_is_yes = True,
           tr_price = 750000000000000000, tr_amount = 3\<rparr>, Receipt 0)]\<rparr>"
  by (simp add: run_defs example_defs fixed_point_half fixed_point_three_quarters)

theorem orders_stay_positive_witness:
  "orders book = [sell1, sell2] \<and> 0 < o_amount sell1 \<and> 0 < o_amount sell2 \<and>
   orders (store (create_order env_ok book buy_req)) = [sell2\<lparr>o_amount := 7\<rparr>] \<and>
   0 < o_amount (sell2\<lparr>o_amount := 7\<rparr>)"
proof -
  have h: "\<forall>x\<in>set (orders book). 0 < o_amount x"
    by (simp add: book_def sell1_def sell2_def)
  from orders_stay_positive [OF h, of env_ok buy_req 1] show ?thesis
    using h by (simp add: example_all_settle) (simp add: book_def)
qed

section \<open>A failed settlement\<close>

text \<open>
  C1 (as the code has it). When a settlement call of a submission fails (it raises, or its
  receipt has status 0), it is the last transfer the submission sent and every earlier one
  went through; the submission ends in HTTP 400 "Transfer shares failed", a client error;
  the committed store is the store from before the request, so the fills of the earlier,
  settled pairs are rolled back with the failed one; and the session is back at the
  savepoint taken before the loop (the two new rows, unfilled).
\<close>

theorem settlement_failure_rolls_back_all:
  assumes "(tx, r) \<in> set (transfers (create_order e d order))" and "\<not> settled r"
  shows "response (create_order e d order) = Inl (HTTPException 400 ''Transfer shares failed'')
       \<and> client_error (HTTPException 400 ''Transfer shares failed'')
       \<and> store (create_order e d order) = d
       \<and> (\<exists>pre. transfers (create_order e d order) = pre @ [(tx, r)]
                \<and> list_all (\<lambda>c. settled (snd c)) pre)
       \<and> (\<exists>user_address.
            session (create_order e d order)
              = \<lparr>orders = orders d @ [make_db_order e d order user_address ''Active''],
                 transactions = transactions d @ [make_db_transaction e d order user_address]\<rparr>)"
proof (cases rule: create_order_cases [of e d order])
  case (rejected err)
  then show ?thesis using assms by (simp add: rejected_def)
next
  case (matching market user_address)
  let ?o = "make_db_order e d order user_address ''Active''"
  let ?t = "make_db_transaction e d order user_address"
  let ?savepoint = "\<lparr>orders = orders d @ [?o], transactions = transactions d @ [?t]\<rparr>"
  let ?s0 = "\<lparr>u_db = ?savepoint, u_db_transaction = ?t,
              u_remaining_amount = o_amount ?o, u_transfers = [], u_ticks = 2\<rparr>"
  obtain res s' where loop: "match_loop e market ?o (match_order ?savepoint ?o) ?s0 = (res, s')"
    by (cases "match_loop e market ?o (match_order ?savepoint ?o) ?s0")
  have tr: "transfers (create_order e d order) = u_transfers s'"
    using matching(5) loop by (cases res) (simp_all add: run_matching_def Let_def)
  have bad: "\<not> list_all (\<lambda>c. settled (snd c)) (u_transfers s')"
    using assms tr by (force simp: list_all_iff)
  have "list_all (\<lambda>c. settled (snd c)) (u_transfers ?s0)" by simp
  from match_loop_transfers [OF this, of e market ?o "match_order ?savepoint ?o"] loop bad
  obtain pre tx' r' where
    res: "res = Some (HTTPException 400 ''Transfer shares failed'')" and
    pre: "u_transfers s' = pre @ [(tx', r')]" "\<not> settled r'"
         "list_all (\<lambda>c. settled (snd c)) pre"
    by (cases res) auto
  have last: "(tx, r) = (tx', r')"
    using assms tr pre by (force simp: list_all_iff)
  have out: "create_order e d order
             = \<lparr>response = Inl (HTTPException 400 ''Transfer shares failed''), store = d,
                session = ?savepoint, transfers = u_transfers s'\<rparr>"
    using matching(5) loop res by (simp add: run_matching_def Let_def)
  show ?thesis
    using out pre last by (auto simp: client_error_def)
qed

theorem settlement_failure_rolls_back_all_witness:
  "(\<lparr>tr_market = ''0xM'', tr_seller = ''0xB'', tr_buyer = ''0xC'', tr_is_yes = True,
     tr_price = 750000000000000000, tr_amount = 3\<rparr>, Receipt 0)
     \<in> set (transfers (create_order env_second_reverts book buy_req)) \<and>
   \<not> settled (Receipt 0) \<and>
   response (create_order env_second_reverts book buy_req)
     = Inl (HTTPException 400 ''Transfer shares failed'') \<and>
   store (create_order env_second_reverts book buy_req) = book"
proof -
  have h1: "(\<lparr>tr_market = ''0xM'', tr_seller = ''0xB'', tr_buyer = ''0xC'', tr_is_yes = True,
               tr_price = 750000000000000000, tr_amount = 3\<rparr>, Receipt 0)
            \<in> set (transfers (create_order env_second_reverts book buy_req))"
    by (simp add: example_second_reverts)
  have h2: "\<not> settled (Receipt 0)" by simp
  from settlement_failure_rolls_back_all [OF h1 h2] show ?thesis
    using h1 h2 by simp
qed

theorem earlier_fill_not_retained_counterexample:
  "transfers (create_order env_second_reverts book buy_req) =
     [(\<lparr>tr_market = ''0xM'', tr_seller = ''0xA'', tr_buyer = ''0xC'', tr_is_yes = True,
        tr_price = 500000000000000000, tr_amount = 5\<rparr>, Receipt 1),
      (\<lparr>tr_market = ''0xM'', tr_seller = ''0xB'', tr_buyer = ''0xC'', tr_is_yes = True,
        tr_price = 750000000000000000, tr_amount = 3\<rparr>, Receipt 0)] \<and>
   settled (Receipt 1) \<and>
   store (create_order env_second_reverts book buy_req) = book \<and>
   transactions (store (create_order env_second_reverts book buy_req)) = [txn1, txn2] \<and>
   t_deal_amount txn1 = 0 \<and>
   sell1 \<in> set (orders (store (create_order env_second_reverts book buy_req)))"
  by (simp add: example_second_reverts) (simp add: book_def txn1_def)

section \<open>Deal and remaining amounts\<close>

lemma fold_max_ge: "a \<le> fold max xs (a::nat)"
  by (induction xs arbitrary: a) (auto intro: order_trans [OF max.cobounded2])

lemma fold_max_mem: "x \<in> set xs \<Longrightarrow> x \<le> fold max xs (a::nat)"
proof (induction xs arbitrary: a)
  case Nil
  then show ?case by simp
next
  case (Cons y ys)
  then show ?case
    using fold_max_ge [of "max y a" ys] by auto
qed

lemma next_id_fresh: "next_id ids \<notin> set ids"
  using fold_max_mem [of "next_id ids" ids 0] by (auto simp: next_id_def)

lemma fill_transaction_fields:
  "t_id (fst (fill_transaction e a p (t, k))) = t_id t"
  "t_order_serial (fst (fill_transaction e a p (t, k))) = t_order_serial t"
  "t_deal_amount (fst (fill_transaction e a p (t, k))) = t_deal_amount t + a"
  "t_remaining_amount (fst (fill_transaction e a p (t, k))) = t_remaining_amount t - a"
  "t_price (fst (fill_transaction e a p (t, k))) = p"
  "t_status (fst (fill_transaction e a p (t, k)))
     = (if 0 < t_remaining_amount t - a then PARTIALLY_DEALT else DEALT)"
  by (simp_all add: fill_transaction_def Let_def)

lemma fill_transaction_total:
  "tx_total (fst (fill_transaction e a p (t, k))) = tx_total t"
  by (simp add: tx_total_def fill_transaction_fields)

lemma apply_fill_transactions:
  "transactions (u_db (apply_fill e db_order m mt a p s)) =
     map (\<lambda>x. if t_id x = t_id mt
               then fst (fill_transaction e a p
                          (mt, snd (fill_transaction e a p (u_db_transaction s, u_ticks s))))
               else if t_id x = t_id (u_db_transaction s)
               then fst (fill_transaction e a p (u_db_transaction s, u_ticks s))
               else x)
       (transactions (u_db s))"
  "u_db_transaction (apply_fill e db_order m mt a p s)
     = fst (fill_transaction e a p (u_db_transaction s, u_ticks s))"
proof -
  obtain dbt' k1 where
    f1: "fill_transaction e a p (u_db_transaction s, u_ticks s) = (dbt', k1)"
    by force
  obtain mt' k2 where f2: "fill_transaction e a p (mt, k1) = (mt', k2)"
    by force
  have ids: "t_id dbt' = t_id (u_db_transaction s)" "t_id mt' = t_id mt"
    using fill_transaction_fields(1) [of e a p "u_db_transaction s" "u_ticks s"]
      fill_transaction_fields(1) [of e a p mt k1] f1 f2 by simp_all
  show "transactions (u_db (apply_fill e db_order m mt a p s)) =
     map (\<lambda>x. if t_id x = t_id mt
               then fst (fill_transaction e a p
                          (mt, snd (fill_transaction e a p (u_db_transaction s, u_ticks s))))
               else if t_id x = t_id (u_db_transaction s)
               then fst (fill_transaction e a p (u_db_transaction s, u_ticks s))
               else x)
       (transactions (u_db s))"
    by (simp add: apply_fill_def f1 f2 Let_def update_transaction_def update_order_def
        delete_order_def ids)
  show "u_db_transaction (apply_fill e db_order m mt a p s)
     = fst (fill_transaction e a p (u_db_transaction s, u_ticks s))"
    by (simp add: apply_fill_def f1 f2 Let_def)
qed

lemma distinct_same_id:
  assumes "distinct (map f xs)" "x \<in> set xs" "y \<in> set xs" "f x = f y"
  shows "x = y"
  using assms by (meson distinct_map inj_onD)

lemma apply_fill_totals:
  assumes d: "distinct (map t_id (transactions (u_db s)))"
    and sync: "\<forall>x\<in>set (transactions (u_db s)).
                 t_id x = t_id (u_db_transaction s) \<longrightarrow> tx_total x = tx_total (u_db_transaction s)"
    and mt: "mt \<in> set (transactions (u_db s))"
  shows "map tx_total (transactions (u_db (apply_fill e db_order m mt a p s)))
           = map tx_total (transactions (u_db s))"
    and "map t_id (transactions (u_db (apply_fill e db_order m mt a p s)))
           = map t_id (transactions (u_db s))"
    and "\<forall>x\<in>set (transactions (u_db (apply_fill e db_order m mt a p s))).
           t_id x = t_id (u_db_transaction (apply_fill e db_order m mt a p s))
           \<longrightarrow> tx_total x = tx_total (u_db_transaction (apply_fill e db_order m mt a p s))"
proof -
  have same: "x = mt" if "x \<in> set (transactions (u_db s))" "t_id x = t_id mt" for x
    using distinct_same_id [OF d that(1) mt that(2)] .
  have same_total: "tx_total mt = tx_total (u_db_transaction s)"
    if "t_id mt = t_id (u_db_transaction s)"
    using sync mt that by blast
  show "map tx_total (transactions (u_db (apply_fill e db_order m mt a p s)))
           = map tx_total (transactions (u_db s))"
    using same sync same_total
    by (auto simp: apply_fill_transactions fill_transaction_total)
  show "map t_id (transactions (u_db (apply_fill e db_order m mt a p s)))
           = map t_id (transactions (u_db s))"
    by (auto simp: apply_fill_transactions fill_transaction_fields)
  show "\<forall>x\<in>set (transactions (u_db (apply_fill e db_order m mt a p s))).
           t_id x = t_id (u_db_transaction (apply_fill e db_order m mt a p s))
           \<longrightarrow> tx_total x = tx_total (u_db_transaction (apply_fill e db_order m mt a p s))"
    using same sync same_total
    by (auto simp: apply_fill_transactions fill_transaction_total fill_transaction_fields)
qed

lemma match_loop_totals:
  assumes "distinct (map t_id (transactions (u_db s)))"
    and "\<forall>x\<in>set (transactions (u_db s)).
           t_id x = t_id (u_db_transaction s) \<longrightarrow> tx_total x = tx_total (u_db_transaction s)"
  shows "map tx_total (transactions (u_db (snd (match_loop e market db_order ms s))))
           = map tx_total (transactions (u_db s))"
  using assms
proof (induction ms arbitrary: s)
  case Nil
  then show ?case by simp
next
  case (Cons m rest)
  show ?case
  proof (cases rule: match_loop_Cons_cases [of s e market db_order m rest])
    case (settled mt tx st)
    let ?s1 = "s\<lparr>u_transfers := u_transfers s @ [(tx, Receipt st)]\<rparr>"
    let ?s2 = "apply_fill e db_order m mt (min (u_remaining_amount s) (o_amount m))
                 (o_price m) ?s1"
    have mt: "mt \<in> set (transactions (u_db ?s1))"
      using first_Some [OF settled(2)] by simp
    have d1: "distinct (map t_id (transactions (u_db ?s1)))"
      using Cons.prems(1) by simp
    have s1: "\<forall>x\<in>set (transactions (u_db ?s1)).
                t_id x = t_id (u_db_transaction ?s1) \<longrightarrow> tx_total x = tx_total (u_db_transaction ?s1)"
      using Cons.prems(2) by simp
    note step = apply_fill_totals [OF d1 s1 mt, of e db_order m
        "min (u_remaining_amount s) (o_amount m)" "o_price m"]
    have "map tx_total (transactions (u_db (snd (match_loop e market db_order rest ?s2))))
            = map tx_total (transactions (u_db ?s2))"
      by (rule Cons.IH) (use step d1 in simp_all)
    then show ?thesis
      using step(1) by (simp add: settled(6))
  qed simp_all
qed

lemma run_matching_totals:
  assumes "distinct (map t_id (transactions d))" "t_id db_transaction \<notin> set (map t_id (transactions d))"
  shows "map tx_total (transactions (store (run_matching e d market db_order db_transaction)))
           = map tx_total (transactions d)
             @ (if isl (response (run_matching e d market db_order db_transaction)) then []
                else [tx_total db_transaction])"
proof -
  let ?savepoint = "\<lparr>orders = orders d @ [db_order],
                     transactions = transactions d @ [db_transaction]\<rparr>"
  let ?s0 = "\<lparr>u_db = ?savepoint, u_db_transaction = db_transaction,
              u_remaining_amount = o_amount db_order, u_transfers = [], u_ticks = 2\<rparr>"
  let ?r = "match_loop e market db_order (match_order ?savepoint db_order) ?s0"
  have "map tx_total (transactions (u_db (snd ?r))) = map tx_total (transactions (u_db ?s0))"
  proof (rule match_loop_totals)
    show "distinct (map t_id (transactions (u_db ?s0)))"
      using assms by simp
    show "\<forall>x\<in>set (transactions (u_db ?s0)).
            t_id x = t_id (u_db_transaction ?s0) \<longrightarrow> tx_total x = tx_total (u_db_transaction ?s0)"
      using assms(2) by (simp add: image_iff) metis
  qed
  then show ?thesis
    by (cases ?r; cases "fst ?r")
       (auto simp: run_matching_def Let_def update_order_def delete_order_def)
qed

lemma cancel_order_amounts_aux:
  assumes "cancel_order e d order_id = out" "distinct (map t_id (transactions d))"
  shows "map t_deal_amount (transactions (store out)) = map t_deal_amount (transactions d) \<and>
         map t_remaining_amount (transactions (store out))
           = map t_remaining_amount (transactions d)"
proof (cases "response out")
  case (Inl err)
  then show ?thesis
    using assms(1) unfolding cancel_order_def
    by (auto split: option.splits if_splits simp: rejected_def Let_def)
next
  case (Inr r)
  from cancel_order_success_aux [OF assms(1) Inr] obtain db_order db_transaction where
    t: "first (\<lambda>t. t_order_serial t = o_order_serial db_order) (transactions d)
          = Some db_transaction" and
    s: "store out = delete_order db_order
          (update_transaction (db_transaction\<lparr>t_status := CANCELLED\<rparr>) d)"
    by blast
  have "x = db_transaction"
    if "x \<in> set (transactions d)" "t_id x = t_id db_transaction" for x
    using distinct_same_id [OF assms(2) that(1) _ that(2)] first_Some [OF t] by simp
  then show ?thesis
    by (auto simp: s delete_order_def update_transaction_def)
qed

text \<open>
  C4. With the primary keys of the transactions table distinct: a submission leaves
  \<open>deal_amount + remaining_amount\<close> of every Transaction as it was, and when it succeeds
  it adds one Transaction whose sum is the submitted amount (created with deal 0 and
  remaining the amount); a fill adds the matched amount to \<open>deal_amount\<close> and subtracts it
  from \<open>remaining_amount\<close>; a cancellation changes neither column of any Transaction.
\<close>

theorem deal_plus_remaining_constant:
  assumes "distinct (map t_id (transactions d))"
  shows "map tx_total (transactions (store (create_order e d order)))
           = map tx_total (transactions d)
             @ (if isl (response (create_order e d order)) then [] else [oc_amount order])
       \<and> t_deal_amount (fst (fill_transaction e a p (t, k))) = t_deal_amount t + a
       \<and> t_remaining_amount (fst (fill_transaction e a p (t, k))) = t_remaining_amount t - a
       \<and> tx_total (fst (fill_transaction e a p (t, k))) = tx_total t
       \<and> map t_deal_amount (transactions (store (cancel_order e d order_id)))
           = map t_deal_amount (transactions d)
       \<and> map t_remaining_amount (transactions (store (cancel_order e d order_id)))
           = map t_remaining_amount (transactions d)"
proof -
  have "map tx_total (transactions (store (create_order e d order)))
           = map tx_total (transactions d)
             @ (if isl (response (create_order e d order)) then [] else [oc_amount order])"
  proof (cases rule: create_order_cases [of e d order])
    case (rejected err)
    then show ?thesis by (simp add: rejected_def)
  next
    case (matching market user_address)
    have "t_id (make_db_transaction e d order user_address) \<notin> set (map t_id (transactions d))"
      using next_id_fresh [of "map t_id (transactions d)"]
      by (simp add: make_db_transaction_def)
    from run_matching_totals [OF assms this] show ?thesis
      by (simp add: matching(5)) (simp add: make_db_transaction_def tx_total_def)
  qed
  then show ?thesis
    using cancel_order_amounts_aux [OF refl assms, of e order_id]
    by (simp add: fill_transaction_fields fill_transaction_total)
qed

theorem deal_plus_remaining_constant_witness:
  "distinct (map t_id (transactions book)) \<and>
   map tx_total (transactions book) = [5, 10] \<and>
   map tx_total (transactions (store (create_order env_ok book buy_req))) = [5, 10, 8] \<and>
   map t_deal_amount (transactions (store (create_order env_ok book buy_req))) = [5, 3, 8] \<and>
   oc_amount buy_req = 8"
proof -
  have h: "distinct (map t_id (transactions book))"
    by (simp add: example_defs)
  have t: "map tx_total (transactions book) = [5, 10]"
    by (simp add: example_defs tx_total_def)
  from deal_plus_remaining_constant [OF h, of env_ok buy_req] show ?thesis
    using h t by (simp add: example_all_settle) (simp add: example_defs)
qed

section \<open>The settlement price\<close>

lemma build_transfer_Some:
  assumes "build_transfer e market db_order m a p = Some tx"
  shows "fixed_point p = Some (tr_price tx)" "tr_amount tx = a" "tr_market tx = market"
  using assms
  by (auto simp: build_transfer_def split: option.splits)

lemma match_loop_filled:
  "u_remaining_amount s = 0 \<Longrightarrow> match_loop e market db_order ms s = (None, s)"
  by (cases ms) (simp_all add: match_loop.simps)

lemma match_loop_Cons_eq:
  "match_loop e market db_order (m # rest) s =
     (case match_loop e market db_order [m] s of
        (None, s') \<Rightarrow> match_loop e market db_order rest s'
      | (Some err, s') \<Rightarrow> (Some err, s'))"
  by (auto simp: match_loop.simps Let_def match_loop_filled
      split: option.splits settlement.splits)

lemma match_loop_prices:
  "\<forall>c\<in>set (u_transfers (snd (match_loop e market db_order ms s))).
     c \<in> set (u_transfers s) \<or>
     (\<exists>m\<in>set ms. fixed_point (o_price m) = Some (tr_price (fst c)) \<and>
                   tr_amount (fst c) \<le> o_amount m)"
proof (induction ms arbitrary: s)
  case Nil
  then show ?case by simp
next
  case (Cons m rest)
  show ?case
  proof (cases rule: match_loop_Cons_cases [of s e market db_order m rest])
    case (failed mt tx r)
    then show ?thesis
      using build_transfer_Some [OF failed(3)] by auto
  next
    case (settled mt tx st)
    let ?s2 = "apply_fill e db_order m mt (min (u_remaining_amount s) (o_amount m))
                 (o_price m) (s\<lparr>u_transfers := u_transfers s @ [(tx, Receipt st)]\<rparr>)"
    have "\<forall>c\<in>set (u_transfers (snd (match_loop e market db_order rest ?s2))).
            c \<in> set (u_transfers ?s2) \<or>
            (\<exists>m\<in>set rest. fixed_point (o_price m) = Some (tr_price (fst c)) \<and>
                             tr_amount (fst c) \<le> o_amount m)"
      by (rule Cons.IH)
    then show ?thesis
      using build_transfer_Some [OF settled(3)] by (auto simp: settled(6))
  qed simp_all
qed

lemma match_order_subset:
  "set (match_order \<lparr>orders = xs @ [x], transactions = ts\<rparr> x) \<subseteq> set xs"
  by (auto simp: match_order_def Let_def order_by_asc_def order_by_desc_def)

text \<open>
  C2. Every transfer a submission sends carries the fixed-point form of the price of a
  resting order of the book (the maker), for an amount that order has. In every iteration
  of the loop that fills (the loop is the sequence of its iterations), the transfer sent
  carries the fixed-point form of the matched order's price, and that price is the one
  recorded on the incoming Transaction and on the matched Transaction; the incoming
  order's own price is used nowhere.
\<close>

theorem settlement_at_maker_price:
  "(\<forall>c\<in>set (transfers (create_order e d order)).
      \<exists>m\<in>set (orders d). fixed_point (o_price m) = Some (tr_price (fst c)) \<and>
                           tr_amount (fst c) \<le> o_amount m) \<and>
   match_loop e market db_order (m # rest) s =
     (case match_loop e market db_order [m] s of
        (None, s') \<Rightarrow> match_loop e market db_order rest s'
      | (Some err, s') \<Rightarrow> (Some err, s')) \<and>
   (match_loop e market db_order [m] s = (None, s') \<and> u_remaining_amount s \<noteq> 0 \<longrightarrow>
      (\<exists>mt tx st.
         first (\<lambda>t. t_order_serial t = o_order_serial m) (transactions (u_db s)) = Some mt \<and>
         u_transfers s' = u_transfers s @ [(tx, Receipt st)] \<and>
         fixed_point (o_price m) = Some (tr_price tx) \<and>
         t_price (u_db_transaction s') = o_price m \<and>
         (\<forall>t\<in>set (transactions (u_db s')).
            t_id t = t_id mt \<or> t_id t = t_id (u_db_transaction s) \<longrightarrow> t_price t = o_price m)))"
proof (intro conjI impI)
  show "\<forall>c\<in>set (transfers (create_order e d order)).
      \<exists>m\<in>set (orders d). fixed_point (o_price m) = Some (tr_price (fst c)) \<and>
                           tr_amount (fst c) \<le> o_amount m"
  proof (cases rule: create_order_cases [of e d order])
    case (rejected err)
    then show ?thesis by (simp add: rejected_def)
  next
    case (matching market' user_address)
    let ?o = "make_db_order e d order user_address ''Active''"
    let ?t = "make_db_transaction e d order user_address"
    let ?savepoint = "\<lparr>orders = orders d @ [?o], transactions = transactions d @ [?t]\<rparr>"
    let ?s0 = "\<lparr>u_db = ?savepoint, u_db_transaction = ?t,
                u_remaining_amount = o_amount ?o, u_transfers = [], u_ticks = 2\<rparr>"
    let ?r = "match_loop e market' ?o (match_order ?savepoint ?o) ?s0"
    have tr: "transfers (create_order e d order) = u_transfers (snd ?r)"
      using matching(5)
      by (cases ?r; cases "fst ?r") (simp_all add: run_matching_def Let_def)
    show ?thesis
      using match_loop_prices [of e market' ?o "match_order ?savepoint ?o" ?s0]
        match_order_subset [of "orders d" ?o "transactions d @ [?t]"]
      unfolding tr by (simp add: subset_iff) blast
  qed
next
  show "match_loop e market db_order (m # rest) s =
     (case match_loop e market db_order [m] s of
        (None, s') \<Rightarrow> match_loop e market db_order rest s'
      | (Some err, s') \<Rightarrow> (Some err, s'))"
    by (rule match_loop_Cons_eq)
next
  assume a: "match_loop e market db_order [m] s = (None, s') \<and> u_remaining_amount s \<noteq> 0"
  show "\<exists>mt tx st.
         first (\<lambda>t. t_order_serial t = o_order_serial m) (transactions (u_db s)) = Some mt \<and>
         u_transfers s' = u_transfers s @ [(tx, Receipt st)] \<and>
         fixed_point (o_price m) = Some (tr_price tx) \<and>
         t_price (u_db_transaction s') = o_price m \<and>
         (\<forall>t\<in>set (transactions (u_db s')).
            t_id t = t_id mt \<or> t_id t = t_id (u_db_transaction s) \<longrightarrow> t_price t = o_price m)"
  proof (cases rule: match_loop_Cons_cases [of s e market db_order m "[]"])
    case (settled mt tx st)
    have s': "s' = apply_fill e db_order m mt (min (u_remaining_amount s) (o_amount m))
                     (o_price m) (s\<lparr>u_transfers := u_transfers s @ [(tx, Receipt st)]\<rparr>)"
      using a settled(6) by simp
    show ?thesis
      apply (rule exI [of _ mt], rule exI [of _ tx], rule exI [of _ st])
      using settled(2) build_transfer_Some(1) [OF settled(3)]
      apply (auto simp: s' apply_fill_transactions fill_transaction_fields)
      done
  qed (use a in simp_all)
qed

theorem settlement_at_maker_price_witness:
  "transfers (create_order env_ok book buy_req) =
     [(\<lparr>tr_market = ''0xM'', tr_seller = ''0xA'', tr_buyer = ''0xC'', tr_is_yes = True,
        tr_price = 500000000000000000, tr_amount = 5\<rparr>, Receipt 1),
      (\<lparr>tr_market = ''0xM'', tr_seller = ''0xB'', tr_buyer = ''0xC'', tr_is_yes = True,
        tr_price = 750000000000000000, tr_amount = 3\<rparr>, Receipt 1)] \<and>
   orders book = [sell1, sell2] \<and>
   fixed_point (o_price sell1) = Some 500000000000000000 \<and>
   fixed_point (o_price sell2) = Some 750000000000000000 \<and>
   oc_price buy_req = 3 / 4 \<and> o_price sell1 = 1 / 2"
proof -
  have "\<forall>c\<in>set (transfers (create_order env_ok book buy_req)).
      \<exists>m\<in>set (orders book). fixed_point (o_price m) = Some (tr_price (fst c)) \<and>
                              tr_amount (fst c) \<le> o_amount m"
    using settlement_at_maker_price [of env_ok book buy_req] by blast
  then show ?thesis
    by (simp add: example_all_settle)
       (simp add: example_defs fixed_point_half fixed_point_three_quarters)
qed

section \<open>Status and \<open>dealt_at\<close>\<close>

lemma fill_transaction_dealt_at:
  "t_dealt_at (fst (fill_transaction e a p (t, k)))
     = (if 0 < t_remaining_amount t - a then t_dealt_at t else Some (utcnow e k))"
  by (simp add: fill_transaction_def Let_def)

lemma fill_transaction_ok:
  assumes ok: "tx_ok t" and st: "t_status t = OPEN \<or> t_status t = PARTIALLY_DEALT"
    and a: "0 < a" "a \<le> t_remaining_amount t"
  shows "tx_ok (fst (fill_transaction e a p (t, k)))"
proof -
  have none: "t_dealt_at t = None"
    using ok st by (auto simp: tx_ok_def)
  have deal: "0 \<le> t_deal_amount t"
    using ok by (simp add: tx_ok_def)
  show ?thesis
    using none deal a
    by (auto simp: tx_ok_def spec_status_def tx_total_def fill_transaction_fields
        fill_transaction_dealt_at)
qed

lemma tx_ok_live:
  assumes "tx_ok t" "t_status t \<noteq> CANCELLED" "0 < t_remaining_amount t"
  shows "t_status t = OPEN \<or> t_status t = PARTIALLY_DEALT"
  using assms by (auto simp: tx_ok_def spec_status_def split: if_splits)

lemma book_wf: "wf_db book"
  by (simp add: wf_db_def tx_ok_def resting_ok_def spec_status_def tx_total_def example_defs)

lemma apply_fill_orders:
  "orders (u_db (apply_fill e db_order m mt a p s)) =
     filter (\<lambda>y. \<not> (u_remaining_amount s - a = 0 \<and> o_id y = o_id db_order))
       (filter (\<lambda>y. \<not> (o_amount m - a = 0 \<and> o_id y = o_id m))
          (map (\<lambda>y. if o_id y = o_id db_order
                     then db_order\<lparr>o_amount := u_remaining_amount s - a\<rparr>
                     else if o_id y = o_id m then m\<lparr>o_amount := o_amount m - a\<rparr>
                     else y)
             (orders (u_db s))))"
proof -
  obtain dbt' k1 where
    f1: "fill_transaction e a p (u_db_transaction s, u_ticks s) = (dbt', k1)"
    by force
  obtain mt' k2 where f2: "fill_transaction e a p (mt, k1) = (mt', k2)"
    by force
  show ?thesis
    by (auto simp: apply_fill_def f1 f2 Let_def update_transaction_def update_order_def
        delete_order_def intro!: filter_cong)
qed

lemma loop_inv_transfers [simp]:
  "loop_inv db_order ms (s\<lparr>u_transfers := tr\<rparr>) = loop_inv db_order ms s"
  by (simp add: loop_inv_def)

lemma loop_inv_Nil: "loop_inv db_order ms s \<Longrightarrow> loop_inv db_order [] s"
  by (simp add: loop_inv_def)

lemma apply_fill_inv:
  assumes inv: "loop_inv db_order (m # rest) s"
    and rem: "u_remaining_amount s \<noteq> 0"
    and mt: "first (\<lambda>t. t_order_serial t = o_order_serial m) (transactions (u_db s)) = Some mt"
  shows "loop_inv db_order rest
           (apply_fill e db_order m mt (min (u_remaining_amount s) (o_amount m)) p s)"
proof -
  let ?ts = "transactions (u_db s)" and ?os = "orders (u_db s)"
  let ?dbt = "u_db_transaction s" and ?R = "u_remaining_amount s"
  let ?a = "min ?R (o_amount m)"
  let ?s' = "apply_fill e db_order m mt ?a p s"
  let ?dbt' = "fst (fill_transaction e ?a p (?dbt, u_ticks s))"
  let ?mt' = "fst (fill_transaction e ?a p
                     (mt, snd (fill_transaction e ?a p (?dbt, u_ticks s))))"
  let ?g = "\<lambda>x. if t_id x = t_id mt then ?mt' else if t_id x = t_id ?dbt then ?dbt' else x"
  let ?m' = "m\<lparr>o_amount := o_amount m - ?a\<rparr>" and ?o' = "db_order\<lparr>o_amount := ?R - ?a\<rparr>"
  let ?h = "\<lambda>y. if o_id y = o_id db_order then ?o' else if o_id y = o_id m then ?m' else y"
  from inv have
    dti: "distinct (map t_id ?ts)" and dts: "distinct (map t_order_serial ?ts)" and
    doi: "distinct (map o_id ?os)" and dos: "distinct (map o_order_serial ?os)" and
    ok: "\<forall>t\<in>set ?ts. tx_ok t" and dbt_in: "?dbt \<in> set ?ts" and
    dbt_serial: "t_order_serial ?dbt = o_order_serial db_order" and
    dbt_rem: "t_remaining_amount ?dbt = ?R" and dbt_live: "t_status ?dbt \<noteq> CANCELLED" and
    R0: "0 \<le> ?R" and
    rows: "\<forall>x\<in>set ?os.
             if o_id x = o_id db_order then x = db_order\<lparr>o_amount := ?R\<rparr>
             else resting_ok (u_db s) x \<and> o_order_serial x \<noteq> o_order_serial db_order" and
    dms: "distinct (m # rest)" and sub: "set (m # rest) \<subseteq> set ?os" and
    ids: "\<forall>m'\<in>set (m # rest). o_id m' \<noteq> o_id db_order"
    by (simp_all add: loop_inv_def)
  have m_in: "m \<in> set ?os" and m_id: "o_id m \<noteq> o_id db_order"
    using sub ids by auto
  have m_rest: "resting_ok (u_db s) m"
    and m_serial: "o_order_serial m \<noteq> o_order_serial db_order"
    using rows m_in m_id by auto
  have mt_in: "mt \<in> set ?ts" and mt_serial: "t_order_serial mt = o_order_serial m"
    using first_Some [OF mt] by simp_all
  have by_serial: "t = mt" if "t \<in> set ?ts" "t_order_serial t = o_order_serial m" for t
    using distinct_same_id [OF dts that(1) mt_in] that(2) mt_serial by simp
  have m_pos: "0 < o_amount m" and mt_rem: "t_remaining_amount mt = o_amount m"
    and mt_st: "t_status mt = OPEN \<or> t_status mt = PARTIALLY_DEALT"
    using m_rest by_serial unfolding resting_ok_def by auto
  have R_pos: "0 < ?R" using R0 rem by simp
  have a_pos: "0 < ?a" and a_R: "?a \<le> ?R" and a_m: "?a \<le> o_amount m"
    using R_pos m_pos by simp_all
  have dbt_st: "t_status ?dbt = OPEN \<or> t_status ?dbt = PARTIALLY_DEALT"
    using tx_ok_live [of ?dbt] ok dbt_in dbt_live dbt_rem R_pos by simp
  have mt_dbt: "t_id mt \<noteq> t_id ?dbt"
  proof
    assume "t_id mt = t_id ?dbt"
    then have "mt = ?dbt" using distinct_same_id [OF dti mt_in dbt_in] by simp
    then show False using mt_serial dbt_serial m_serial by simp
  qed
  have by_id_mt: "x = mt" if "x \<in> set ?ts" "t_id x = t_id mt" for x
    using distinct_same_id [OF dti that(1) mt_in that(2)] .
  have by_id_dbt: "x = ?dbt" if "x \<in> set ?ts" "t_id x = t_id ?dbt" for x
    using distinct_same_id [OF dti that(1) dbt_in that(2)] .
  have by_id_m: "y = m" if "y \<in> set ?os" "o_id y = o_id m" for y
    using distinct_same_id [OF doi that(1) m_in that(2)] .
  have mt'_ok: "tx_ok ?mt'"
    by (rule fill_transaction_ok) (use ok mt_in mt_st a_pos a_m mt_rem in simp_all)
  have dbt'_ok: "tx_ok ?dbt'"
    by (rule fill_transaction_ok) (use ok dbt_in dbt_st a_pos a_R dbt_rem in simp_all)
  have ts': "transactions (u_db ?s') = map ?g ?ts"
    by (simp add: apply_fill_transactions)
  have dbt': "u_db_transaction ?s' = ?dbt'"
    by (simp add: apply_fill_transactions)
  have os': "orders (u_db ?s') =
     filter (\<lambda>y. \<not> (?R - ?a = 0 \<and> o_id y = o_id db_order))
       (filter (\<lambda>y. \<not> (o_amount m - ?a = 0 \<and> o_id y = o_id m)) (map ?h ?os))"
    by (simp add: apply_fill_orders)
  have g_id: "t_id (?g x) = t_id x" for x
    by (simp add: fill_transaction_fields)
  have g_serial: "t_order_serial (?g x) = t_order_serial x" if "x \<in> set ?ts" for x
    using by_id_mt [OF that] by_id_dbt [OF that] by (auto simp: fill_transaction_fields)
  have h_id: "o_id (?h y) = o_id y" for y
    by simp
  have h_serial: "o_order_serial (?h y) = o_order_serial y" if "y \<in> set ?os" for y
    using by_id_m [OF that] rows that by auto
  have c1: "distinct (map t_id (transactions (u_db ?s')))"
    using dti by (simp add: ts' o_def g_id)
  have e2: "map t_order_serial (map ?g ?ts) = map t_order_serial ?ts"
    unfolding map_map by (rule map_cong [OF refl]) (simp add: g_serial)
  have c2: "distinct (map t_order_serial (transactions (u_db ?s')))"
    unfolding ts' e2 by (rule dts)
  have e3: "map o_id (map ?h ?os) = map o_id ?os"
    unfolding map_map by (rule map_cong [OF refl]) simp
  have c3: "distinct (map o_id (orders (u_db ?s')))"
    unfolding os' by (rule distinct_map_filter, rule distinct_map_filter) (simp only: e3 doi)
  have e4: "map o_order_serial (map ?h ?os) = map o_order_serial ?os"
    unfolding map_map by (rule map_cong [OF refl]) (simp add: h_serial)
  have c4: "distinct (map o_order_serial (orders (u_db ?s')))"
    unfolding os' by (rule distinct_map_filter, rule distinct_map_filter) (simp only: e4 dos)
  have c5: "\<forall>t\<in>set (transactions (u_db ?s')). tx_ok t"
    using ok mt'_ok dbt'_ok by (auto simp: ts')
  have gd: "?g ?dbt = ?dbt'"
    using mt_dbt by simp
  have c6: "u_db_transaction ?s' \<in> set (transactions (u_db ?s'))"
    using imageI [OF dbt_in, of ?g] by (simp only: ts' dbt' set_map gd)
  have c7: "t_order_serial (u_db_transaction ?s') = o_order_serial db_order"
    using dbt_serial by (simp add: dbt' fill_transaction_fields)
  have c8: "t_remaining_amount (u_db_transaction ?s') = u_remaining_amount ?s'"
    using dbt_rem by (simp add: dbt' fill_transaction_fields)
  have c9: "t_status (u_db_transaction ?s') \<noteq> CANCELLED"
    by (simp add: dbt' fill_transaction_fields)
  have c10: "rest \<noteq> [] \<longrightarrow> 0 \<le> u_remaining_amount ?s'"
    using a_R by simp
  have mt'_in: "?mt' \<in> set (transactions (u_db ?s'))"
  proof -
    have gm: "?g mt = ?mt'" by simp
    show ?thesis
      using imageI [OF mt_in, of ?g] by (simp only: ts' set_map gm)
  qed
  have keep: "resting_ok (u_db ?s') y"
    if y: "y \<in> set ?os" "o_id y \<noteq> o_id db_order" "o_id y \<noteq> o_id m" for y
  proof -
    from rows y have r: "resting_ok (u_db s) y"
      and ys: "o_order_serial y \<noteq> o_order_serial db_order" by auto
    then obtain t where t: "t \<in> set ?ts" "t_order_serial t = o_order_serial y"
      "t_remaining_amount t = o_amount y" "t_status t = OPEN \<or> t_status t = PARTIALLY_DEALT"
      and pos: "0 < o_amount y"
      unfolding resting_ok_def by blast
    have "y \<noteq> m" using y(3) by auto
    then have "o_order_serial y \<noteq> o_order_serial m"
      using distinct_same_id [OF dos y(1) m_in] by auto
    then have "t_id t \<noteq> t_id mt"
      using by_id_mt [OF t(1)] t(2) mt_serial by auto
    moreover have "t_id t \<noteq> t_id ?dbt"
      using by_id_dbt [OF t(1)] t(2) dbt_serial ys by auto
    ultimately have gt: "?g t = t" by simp
    have "t \<in> set (transactions (u_db ?s'))"
      using imageI [OF t(1), of ?g] by (simp only: ts' set_map gt)
    then show ?thesis
      using t pos unfolding resting_ok_def by blast
  qed
  have m'_ok: "resting_ok (u_db ?s') ?m'" if "o_amount m - ?a \<noteq> 0"
  proof -
    have pos: "0 < o_amount m - ?a" using that a_m by simp
    have st: "t_status ?mt' = PARTIALLY_DEALT"
      using pos mt_rem by (simp add: fill_transaction_fields)
    have rm: "t_remaining_amount ?mt' = o_amount ?m'"
      using mt_rem by (simp add: fill_transaction_fields)
    have sr: "t_order_serial ?mt' = o_order_serial ?m'"
      using mt_serial by (simp add: fill_transaction_fields)
    have "\<exists>t\<in>set (transactions (u_db ?s')).
            t_order_serial t = o_order_serial ?m' \<and> t_remaining_amount t = o_amount ?m' \<and>
            (t_status t = OPEN \<or> t_status t = PARTIALLY_DEALT)"
      using mt'_in st rm sr by blast
    moreover have "0 < o_amount ?m'" using pos by simp
    ultimately show ?thesis unfolding resting_ok_def by blast
  qed
  have c11: "\<forall>x\<in>set (orders (u_db ?s')).
               if o_id x = o_id db_order then x = db_order\<lparr>o_amount := u_remaining_amount ?s'\<rparr>
               else resting_ok (u_db ?s') x \<and> o_order_serial x \<noteq> o_order_serial db_order"
  proof
    fix x assume "x \<in> set (orders (u_db ?s'))"
    then obtain y where y: "y \<in> set ?os" "x = ?h y"
      and p1: "\<not> (o_amount m - ?a = 0 \<and> o_id x = o_id m)"
      unfolding os' by auto
    show "if o_id x = o_id db_order then x = db_order\<lparr>o_amount := u_remaining_amount ?s'\<rparr>
          else resting_ok (u_db ?s') x \<and> o_order_serial x \<noteq> o_order_serial db_order"
    proof (cases "o_id y = o_id db_order")
      case True
      then show ?thesis using y by simp
    next
      case other: False
      show ?thesis
      proof (cases "o_id y = o_id m")
        case True
        then have "x = ?m'" using y other by simp
        then show ?thesis
          using m'_ok p1 m_id m_serial by auto
      next
        case False
        then have "x = y" using y other by simp
        then show ?thesis
          using keep [OF y(1) other False] rows y(1) other by auto
      qed
    qed
  qed
  have c12: "distinct rest" using dms by simp
  have c13: "set rest \<subseteq> set (orders (u_db ?s'))"
  proof
    fix m2 assume m2: "m2 \<in> set rest"
    then have in_os: "m2 \<in> set ?os" and ne: "m2 \<noteq> m" and id2: "o_id m2 \<noteq> o_id db_order"
      using sub dms ids by auto
    have "o_id m2 \<noteq> o_id m"
      using by_id_m [OF in_os] ne by auto
    then have hm: "?h m2 = m2" using id2 by simp
    have "m2 \<in> set (map ?h ?os)"
      using imageI [OF in_os, of ?h] by (simp only: set_map hm)
    then show "m2 \<in> set (orders (u_db ?s'))"
      using id2 \<open>o_id m2 \<noteq> o_id m\<close> unfolding os' by simp
  qed
  have c14: "\<forall>m\<in>set rest. o_id m \<noteq> o_id db_order"
    using ids by simp
  show ?thesis
    unfolding loop_inv_def
    by (intro conjI) (fact c1 c2 c3 c4 c5 c6 c7 c8 c9 c10 c11 c12 c13 c14)+
qed

lemma match_loop_inv:
  assumes "loop_inv db_order ms s"
  shows "loop_inv db_order [] (snd (match_loop e market db_order ms s))"
  using assms
proof (induction ms arbitrary: s)
  case Nil
  then show ?case by simp
next
  case (Cons m rest)
  show ?case
  proof (cases rule: match_loop_Cons_cases [of s e market db_order m rest])
    case (settled mt tx st)
    let ?s1 = "s\<lparr>u_transfers := u_transfers s @ [(tx, Receipt st)]\<rparr>"
    have "loop_inv db_order rest
            (apply_fill e db_order m mt (min (u_remaining_amount ?s1) (o_amount m))
               (o_price m) ?s1)"
      by (rule apply_fill_inv) (use Cons.prems settled(1,2) in simp_all)
    then have "loop_inv db_order rest
            (apply_fill e db_order m mt (min (u_remaining_amount s) (o_amount m))
               (o_price m) ?s1)"
      by simp
    from Cons.IH [OF this] show ?thesis
      by (simp only: settled(6))
  qed (use loop_inv_Nil [OF Cons.prems] in simp_all)
qed

lemma apply_fill_terminal:
  assumes inv: "loop_inv db_order (m # rest) s"
    and rem: "u_remaining_amount s \<noteq> 0"
    and mt: "first (\<lambda>t. t_order_serial t = o_order_serial m) (transactions (u_db s)) = Some mt"
    and i: "i < length (transactions (u_db s))"
    and fin: "t_status (transactions (u_db s) ! i) = DEALT \<or>
               t_status (transactions (u_db s) ! i) = CANCELLED"
  shows "transactions (u_db (apply_fill e db_order m mt a p s)) ! i = transactions (u_db s) ! i"
proof -
  let ?ts = "transactions (u_db s)" and ?os = "orders (u_db s)"
  let ?dbt = "u_db_transaction s" and ?x = "transactions (u_db s) ! i"
  from inv have
    dti: "distinct (map t_id ?ts)" and dts: "distinct (map t_order_serial ?ts)" and
    ok: "\<forall>t\<in>set ?ts. tx_ok t" and dbt_in: "?dbt \<in> set ?ts" and
    dbt_rem: "t_remaining_amount ?dbt = u_remaining_amount s" and
    dbt_live: "t_status ?dbt \<noteq> CANCELLED" and
    R0: "0 \<le> u_remaining_amount s" and
    rows: "\<forall>x\<in>set ?os.
             if o_id x = o_id db_order then x = db_order\<lparr>o_amount := u_remaining_amount s\<rparr>
             else resting_ok (u_db s) x \<and> o_order_serial x \<noteq> o_order_serial db_order" and
    sub: "set (m # rest) \<subseteq> set ?os" and
    ids: "\<forall>m'\<in>set (m # rest). o_id m' \<noteq> o_id db_order"
    by (simp_all add: loop_inv_def)
  have m_rest: "resting_ok (u_db s) m"
    using rows sub ids by auto
  have mt_in: "mt \<in> set ?ts" and mt_serial: "t_order_serial mt = o_order_serial m"
    using first_Some [OF mt] by simp_all
  have by_serial: "t = mt" if "t \<in> set ?ts" "t_order_serial t = o_order_serial m" for t
    using distinct_same_id [OF dts that(1) mt_in] that(2) mt_serial by simp
  have mt_st: "t_status mt = OPEN \<or> t_status mt = PARTIALLY_DEALT"
    using m_rest by_serial unfolding resting_ok_def by auto
  have dbt_st: "t_status ?dbt = OPEN \<or> t_status ?dbt = PARTIALLY_DEALT"
    using tx_ok_live [of ?dbt] ok dbt_in dbt_live dbt_rem R0 rem by simp
  have x_in: "?x \<in> set ?ts" using i by simp
  have "t_id ?x \<noteq> t_id mt"
    using distinct_same_id [OF dti x_in mt_in] mt_st fin by auto
  moreover have "t_id ?x \<noteq> t_id ?dbt"
    using distinct_same_id [OF dti x_in dbt_in] dbt_st fin by auto
  ultimately show ?thesis
    using i by (simp add: apply_fill_transactions)
qed

lemma apply_fill_length [simp]:
  "length (transactions (u_db (apply_fill e db_order m mt a p s)))
     = length (transactions (u_db s))"
  by (simp add: apply_fill_transactions)

lemma match_loop_terminal:
  assumes "loop_inv db_order ms s"
  shows "length (transactions (u_db (snd (match_loop e market db_order ms s))))
           = length (transactions (u_db s)) \<and>
         (\<forall>i<length (transactions (u_db s)).
            t_status (transactions (u_db s) ! i) = DEALT \<or>
            t_status (transactions (u_db s) ! i) = CANCELLED \<longrightarrow>
            transactions (u_db (snd (match_loop e market db_order ms s))) ! i
              = transactions (u_db s) ! i)"
  using assms
proof (induction ms arbitrary: s)
  case Nil
  then show ?case by simp
next
  case (Cons m rest)
  show ?case
  proof (cases rule: match_loop_Cons_cases [of s e market db_order m rest])
    case (settled mt tx st)
    let ?s1 = "s\<lparr>u_transfers := u_transfers s @ [(tx, Receipt st)]\<rparr>"
    let ?s2 = "apply_fill e db_order m mt (min (u_remaining_amount s) (o_amount m))
                 (o_price m) ?s1"
    have inv1: "loop_inv db_order (m # rest) ?s1"
      using Cons.prems by simp
    have "loop_inv db_order rest
            (apply_fill e db_order m mt (min (u_remaining_amount ?s1) (o_amount m))
               (o_price m) ?s1)"
      by (rule apply_fill_inv) (use Cons.prems settled(1,2) in simp_all)
    then have inv2: "loop_inv db_order rest ?s2"
      by simp
    have step: "transactions (u_db ?s2) ! i = transactions (u_db s) ! i"
      if "i < length (transactions (u_db s))"
        "t_status (transactions (u_db s) ! i) = DEALT \<or>
         t_status (transactions (u_db s) ! i) = CANCELLED" for i
    proof -
      have "transactions (u_db ?s2) ! i = transactions (u_db ?s1) ! i"
        by (rule apply_fill_terminal [OF inv1]) (use settled(1,2) that in simp_all)
      then show ?thesis by simp
    qed
    from Cons.IH [OF inv2] step show ?thesis
      by (simp add: settled(6))
  qed simp_all
qed

lemma resting_ok_transactions:
  "transactions d' = transactions d \<Longrightarrow> resting_ok d' x = resting_ok d x"
  by (simp add: resting_ok_def)

lemma resting_ok_append:
  "resting_ok d x \<Longrightarrow>
   resting_ok \<lparr>orders = os, transactions = transactions d @ ts\<rparr> x"
  by (auto simp: resting_ok_def)

lemma initial_loop_inv:
  assumes wf: "wf_db d"
    and fresh: "uuid4 e \<notin> set (map t_order_serial (transactions d))"
  shows "loop_inv (make_db_order e d order ua st)
           (match_order \<lparr>orders = orders d @ [make_db_order e d order ua st],
                         transactions = transactions d @ [make_db_transaction e d order ua]\<rparr>
              (make_db_order e d order ua st))
           \<lparr>u_db = \<lparr>orders = orders d @ [make_db_order e d order ua st],
                     transactions = transactions d @ [make_db_transaction e d order ua]\<rparr>,
            u_db_transaction = make_db_transaction e d order ua,
            u_remaining_amount = o_amount (make_db_order e d order ua st),
            u_transfers = [], u_ticks = 2\<rparr>"
proof -
  let ?o = "make_db_order e d order ua st" and ?t = "make_db_transaction e d order ua"
  let ?sp = "\<lparr>orders = orders d @ [?o], transactions = transactions d @ [?t]\<rparr>"
  let ?ms = "match_order ?sp ?o"
  have oid: "o_id ?o \<notin> set (map o_id (orders d))"
    using next_id_fresh [of "map o_id (orders d)"] by (simp add: make_db_order_def)
  have tid: "t_id ?t \<notin> set (map t_id (transactions d))"
    using next_id_fresh [of "map t_id (transactions d)"] by (simp add: make_db_transaction_def)
  have oser: "o_order_serial ?o = uuid4 e" and tser: "t_order_serial ?t = uuid4 e"
    by (simp_all add: make_db_order_def make_db_transaction_def)
  from wf have
    dti: "distinct (map t_id (transactions d))" and
    dts: "distinct (map t_order_serial (transactions d))" and
    doi: "distinct (map o_id (orders d))" and
    dos: "distinct (map o_order_serial (orders d))" and
    ok: "\<forall>t\<in>set (transactions d). tx_ok t" and
    rows: "\<forall>x\<in>set (orders d). resting_ok d x"
    by (simp_all add: wf_db_def)
  have fresh_o: "o_order_serial x \<noteq> uuid4 e" if "x \<in> set (orders d)" for x
  proof
    assume eq: "o_order_serial x = uuid4 e"
    from rows that obtain t where "t \<in> set (transactions d)"
      "t_order_serial t = o_order_serial x"
      unfolding resting_ok_def by blast
    then show False using fresh eq by force
  qed
  have id_o: "o_id x \<noteq> o_id ?o" if "x \<in> set (orders d)" for x
    using oid imageI [OF that, of o_id] by auto
  have t_ok: "tx_ok ?t"
    by (simp add: tx_ok_def spec_status_def tx_total_def make_db_transaction_def)
  have ms_sub: "set ?ms \<subseteq> set (orders d)"
    by (rule match_order_subset)
  have c1: "distinct (map t_id (transactions ?sp))"
    using dti tid by simp
  have c2: "distinct (map t_order_serial (transactions ?sp))"
    using dts fresh tser by simp
  have c3: "distinct (map o_id (orders ?sp))"
    using doi oid by simp
  have "uuid4 e \<notin> set (map o_order_serial (orders d))"
  proof
    assume "uuid4 e \<in> set (map o_order_serial (orders d))"
    then obtain x where "x \<in> set (orders d)" "o_order_serial x = uuid4 e"
      by (auto simp: image_iff)
    then show False using fresh_o by blast
  qed
  then have c4: "distinct (map o_order_serial (orders ?sp))"
    using dos oser by simp
  have c5: "\<forall>t\<in>set (transactions ?sp). tx_ok t"
    using ok t_ok by simp
  have c6: "?t \<in> set (transactions ?sp)" by simp
  have c7: "t_order_serial ?t = o_order_serial ?o"
    using oser tser by simp
  have c8: "t_remaining_amount ?t = o_amount ?o"
    by (simp add: make_db_order_def make_db_transaction_def)
  have c9: "t_status ?t \<noteq> CANCELLED"
    by (simp add: make_db_transaction_def)
  have c10: "?ms \<noteq> [] \<longrightarrow> 0 \<le> o_amount ?o"
    by (auto simp: match_order_def)
  have c11: "\<forall>x\<in>set (orders ?sp).
               if o_id x = o_id ?o then x = ?o\<lparr>o_amount := o_amount ?o\<rparr>
               else resting_ok ?sp x \<and> o_order_serial x \<noteq> o_order_serial ?o"
    using rows id_o fresh_o oser resting_ok_append [of d _ "orders d @ [?o]" "[?t]"]
    by auto
  have "distinct (orders ?sp)"
    using c3 by (rule distinct_map [THEN iffD1, THEN conjunct1])
  then have c12: "distinct ?ms"
    by (simp add: match_order_def Let_def order_by_asc_def order_by_desc_def)
  have c13: "set ?ms \<subseteq> set (orders ?sp)"
    using ms_sub by auto
  have c14: "\<forall>m\<in>set ?ms. o_id m \<noteq> o_id ?o"
    using ms_sub id_o by blast
  show ?thesis
    unfolding loop_inv_def
    by (simp only: uow.simps, intro conjI)
       (fact c1 c2 c3 c4 c5 c6 c7 c8 c9 c10 c11 c12 c13 c14)+
qed

lemma final_update_wf:
  assumes inv: "loop_inv db_order [] s" and pos: "0 < u_remaining_amount s"
  shows "wf_db (update_order (db_order\<lparr>o_amount := u_remaining_amount s\<rparr>) (u_db s))"
proof -
  let ?o' = "db_order\<lparr>o_amount := u_remaining_amount s\<rparr>"
  let ?dbt = "u_db_transaction s"
  from inv have
    dti: "distinct (map t_id (transactions (u_db s)))" and
    dts: "distinct (map t_order_serial (transactions (u_db s)))" and
    doi: "distinct (map o_id (orders (u_db s)))" and
    dos: "distinct (map o_order_serial (orders (u_db s)))" and
    ok: "\<forall>t\<in>set (transactions (u_db s)). tx_ok t" and
    dbt_in: "?dbt \<in> set (transactions (u_db s))" and
    dbt_serial: "t_order_serial ?dbt = o_order_serial db_order" and
    dbt_rem: "t_remaining_amount ?dbt = u_remaining_amount s" and
    dbt_live: "t_status ?dbt \<noteq> CANCELLED" and
    rows: "\<forall>x\<in>set (orders (u_db s)).
             if o_id x = o_id db_order then x = ?o'
             else resting_ok (u_db s) x \<and> o_order_serial x \<noteq> o_order_serial db_order"
    by (simp_all add: loop_inv_def)
  have same: "map (\<lambda>y. if o_id y = o_id db_order then ?o' else y) (orders (u_db s))
              = orders (u_db s)"
    by (rule map_idI) (use rows in auto)
  have eq: "update_order ?o' (u_db s) = u_db s"
    by (simp add: update_order_def same)
  have dbt_st: "t_status ?dbt = OPEN \<or> t_status ?dbt = PARTIALLY_DEALT"
    using tx_ok_live [of ?dbt] ok dbt_in dbt_live dbt_rem pos by simp
  have r0: "resting_ok (u_db s) ?o'"
    unfolding resting_ok_def using pos dbt_in dbt_serial dbt_rem dbt_st
    by (auto intro!: bexI [of _ ?dbt])
  have "resting_ok (u_db s) x" if "x \<in> set (orders (u_db s))" for x
    using bspec [OF rows that] r0 by (auto split: if_splits)
  then have "\<forall>x\<in>set (orders (u_db s)). resting_ok (u_db s) x"
    by blast
  then show ?thesis
    unfolding eq wf_db_def using dti dts doi dos ok by simp
qed

lemma final_delete_wf:
  assumes inv: "loop_inv db_order [] s"
  shows "wf_db (delete_order db_order (u_db s))"
proof -
  from inv have
    dti: "distinct (map t_id (transactions (u_db s)))" and
    dts: "distinct (map t_order_serial (transactions (u_db s)))" and
    doi: "distinct (map o_id (orders (u_db s)))" and
    dos: "distinct (map o_order_serial (orders (u_db s)))" and
    ok: "\<forall>t\<in>set (transactions (u_db s)). tx_ok t" and
    rows: "\<forall>x\<in>set (orders (u_db s)).
             if o_id x = o_id db_order then x = db_order\<lparr>o_amount := u_remaining_amount s\<rparr>
             else resting_ok (u_db s) x \<and> o_order_serial x \<noteq> o_order_serial db_order"
    by (simp_all add: loop_inv_def)
  have r: "resting_ok (delete_order db_order (u_db s)) x = resting_ok (u_db s) x" for x
    by (rule resting_ok_transactions) (simp add: delete_order_def)
  show ?thesis
    unfolding wf_db_def
    using dti dts doi dos ok rows
    by (auto simp: delete_order_def distinct_map_filter r [unfolded delete_order_def])
qed

lemma run_matching_wf:
  assumes wf: "wf_db d"
    and fresh: "uuid4 e \<notin> set (map t_order_serial (transactions d))"
  shows "wf_db (store (run_matching e d market (make_db_order e d order ua st)
                         (make_db_transaction e d order ua)))"
    and "length (transactions d)
           \<le> length (transactions (store (run_matching e d market
                 (make_db_order e d order ua st) (make_db_transaction e d order ua))))"
    and "\<forall>i<length (transactions d).
           t_status (transactions d ! i) = DEALT \<or> t_status (transactions d ! i) = CANCELLED \<longrightarrow>
           transactions (store (run_matching e d market (make_db_order e d order ua st)
                                  (make_db_transaction e d order ua))) ! i
             = transactions d ! i"
proof -
  let ?o = "make_db_order e d order ua st" and ?t = "make_db_transaction e d order ua"
  let ?sp = "\<lparr>orders = orders d @ [?o], transactions = transactions d @ [?t]\<rparr>"
  let ?s0 = "\<lparr>u_db = ?sp, u_db_transaction = ?t, u_remaining_amount = o_amount ?o,
              u_transfers = [], u_ticks = 2\<rparr>"
  let ?out = "run_matching e d market ?o ?t"
  obtain res s' where loop: "match_loop e market ?o (match_order ?sp ?o) ?s0 = (res, s')"
    by (cases "match_loop e market ?o (match_order ?sp ?o) ?s0")
  have inv0: "loop_inv ?o (match_order ?sp ?o) ?s0"
    by (rule initial_loop_inv [OF wf fresh])
  have inv: "loop_inv ?o [] s'"
    using match_loop_inv [OF inv0, of e market] loop by simp
  have fin: "length (transactions (u_db s')) = length (transactions d) + 1 \<and>
         (\<forall>i<length (transactions d) + 1.
            t_status (transactions ?sp ! i) = DEALT \<or>
            t_status (transactions ?sp ! i) = CANCELLED \<longrightarrow>
            transactions (u_db s') ! i = transactions ?sp ! i)"
    using match_loop_terminal [OF inv0, of e market] loop by simp
  have ts: "transactions (store ?out) = transactions d \<or>
            transactions (store ?out) = transactions (u_db s')"
    using loop
    by (cases res) (simp_all add: run_matching_def Let_def update_order_def delete_order_def)
  show "wf_db (store ?out)"
  proof (cases res)
    case (Some err)
    then show ?thesis using loop wf by (simp add: run_matching_def Let_def)
  next
    case None
    then show ?thesis
      using loop final_update_wf [OF inv] final_delete_wf [OF inv]
      by (simp add: run_matching_def Let_def)
  qed
  show "length (transactions d) \<le> length (transactions (store ?out))"
    using ts fin by auto
  show "\<forall>i<length (transactions d).
           t_status (transactions d ! i) = DEALT \<or> t_status (transactions d ! i) = CANCELLED \<longrightarrow>
           transactions (store ?out) ! i = transactions d ! i"
  proof (intro allI impI)
    fix i assume i: "i < length (transactions d)"
      and t: "t_status (transactions d ! i) = DEALT \<or> t_status (transactions d ! i) = CANCELLED"
    have e1: "transactions ?sp ! i = transactions d ! i"
      using i by (simp add: nth_append)
    have il: "i < length (transactions d) + 1"
      using i by simp
    have tt: "t_status (transactions ?sp ! i) = DEALT \<or>
              t_status (transactions ?sp ! i) = CANCELLED"
      using t i by (simp add: nth_append)
    have "transactions (u_db s') ! i = transactions ?sp ! i"
      using fin [THEN conjunct2, THEN spec, of i, THEN mp, OF il, THEN mp, OF tt] .
    then have "transactions (u_db s') ! i = transactions d ! i"
      using e1 by simp
    then show "transactions (store ?out) ! i = transactions d ! i"
      using ts by auto
  qed
qed

text \<open>
  C5. On a well-formed store and with a fresh serial, a submission leaves the store
  well-formed: every Transaction (the incoming one and every matched one included) has the
  status the specification derives from its remaining amount and its original amount, or
  is CANCELLED, and has \<open>dealt_at\<close> set exactly when it is DEALT; a Transaction that was
  DEALT or CANCELLED before the submission is not touched by it, so \<open>dealt_at\<close> is written
  once, in the fill that makes the Transaction DEALT. For one fill of a live Transaction by
  an amount between 1 and its remaining amount: the new status is the derived one and
  \<open>dealt_at\<close> is the time of the fill when the status is DEALT and unset otherwise.
\<close>

theorem status_follows_remaining:
  assumes "wf_db d" and "uuid4 e \<notin> set (map t_order_serial (transactions d))"
  shows "wf_db (store (create_order e d order))
       \<and> (\<forall>t\<in>set (transactions (store (create_order e d order))). tx_ok t)
       \<and> length (transactions d) \<le> length (transactions (store (create_order e d order)))
       \<and> (\<forall>i<length (transactions d).
            t_status (transactions d ! i) = DEALT \<or> t_status (transactions d ! i) = CANCELLED \<longrightarrow>
            transactions (store (create_order e d order)) ! i = transactions d ! i)
       \<and> (tx_ok t \<and> (t_status t = OPEN \<or> t_status t = PARTIALLY_DEALT) \<and>
          0 < a \<and> a \<le> t_remaining_amount t \<longrightarrow>
            spec_status (tx_total t) (t_remaining_amount (fst (fill_transaction e a p (t, k))))
              = Some (t_status (fst (fill_transaction e a p (t, k)))) \<and>
            t_dealt_at (fst (fill_transaction e a p (t, k)))
              = (if t_status (fst (fill_transaction e a p (t, k))) = DEALT
                 then Some (utcnow e k) else None))"
proof -
  have fill: "spec_status (tx_total t) (t_remaining_amount (fst (fill_transaction e a p (t, k))))
              = Some (t_status (fst (fill_transaction e a p (t, k)))) \<and>
            t_dealt_at (fst (fill_transaction e a p (t, k)))
              = (if t_status (fst (fill_transaction e a p (t, k))) = DEALT
                 then Some (utcnow e k) else None)"
    if h: "tx_ok t \<and> (t_status t = OPEN \<or> t_status t = PARTIALLY_DEALT) \<and>
           0 < a \<and> a \<le> t_remaining_amount t"
  proof -
    have "t_dealt_at t = None" "0 \<le> t_deal_amount t"
      using h by (auto simp: tx_ok_def)
    then show ?thesis
      using h
      by (auto simp: spec_status_def tx_total_def fill_transaction_fields
          fill_transaction_dealt_at)
  qed
  have main: "wf_db (store (create_order e d order))
       \<and> length (transactions d) \<le> length (transactions (store (create_order e d order)))
       \<and> (\<forall>i<length (transactions d).
            t_status (transactions d ! i) = DEALT \<or> t_status (transactions d ! i) = CANCELLED \<longrightarrow>
            transactions (store (create_order e d order)) ! i = transactions d ! i)"
  proof (cases rule: create_order_cases [of e d order])
    case (rejected err)
    then show ?thesis using assms(1) by (simp add: rejected_def)
  next
    case (matching market user_address)
    show ?thesis
      unfolding matching(5)
      using run_matching_wf [OF assms, of market order user_address "''Active''"]
      by blast
  qed
  then have "\<forall>t\<in>set (transactions (store (create_order e d order))). tx_ok t"
    by (simp add: wf_db_def)
  then show ?thesis
    using main fill by blast
qed

theorem status_follows_remaining_witness:
  "wf_db book \<and> uuid4 env_ok = ''s3'' \<and>
   map t_order_serial (transactions book) = [''s1'', ''s2''] \<and>
   wf_db (store (create_order env_ok book buy_req)) \<and>
   map t_remaining_amount (transactions (store (create_order env_ok book buy_req))) = [0, 7, 0] \<and>
   map t_status (transactions (store (create_order env_ok book buy_req)))
     = [DEALT, PARTIALLY_DEALT, DEALT] \<and>
   map t_dealt_at (transactions (store (create_order env_ok book buy_req)))
     = [Some 102, None, Some 103]"
proof -
  have h: "uuid4 env_ok \<notin> set (map t_order_serial (transactions book))"
    by (simp add: example_defs)
  from status_follows_remaining [OF book_wf h, of buy_req] show ?thesis
    using book_wf by (simp add: example_all_settle) (simp add: example_defs)
qed

section \<open>Candidates and the transfers sent\<close>

lemma match_order_member:
  assumes "m \<in> set (match_order d new_order)"
  shows "m \<in> set (orders d) \<and> o_market_address m = o_market_address new_order \<and>
         o_outcome m = o_outcome new_order \<and> 0 < o_amount m \<and>
         o_market_state m = ''Active'' \<and> 0 < o_amount new_order \<and>
         (if o_side new_order = ''buy''
          then o_side m = ''sell'' \<and> o_price m \<le> o_price new_order
          else o_side m = ''buy'' \<and> o_price new_order \<le> o_price m)"
  using assms
  by (auto simp: match_order_def Let_def order_by_asc_def order_by_desc_def
      split: if_splits)

lemma run_matching_transfers:
  assumes "c \<in> set (transfers (run_matching e d market db_order db_transaction))"
  shows "\<exists>m\<in>set (match_order \<lparr>orders = orders d @ [db_order],
                                  transactions = transactions d @ [db_transaction]\<rparr> db_order).
           fixed_point (o_price m) = Some (tr_price (fst c)) \<and> tr_amount (fst c) \<le> o_amount m"
proof -
  let ?sp = "\<lparr>orders = orders d @ [db_order],
              transactions = transactions d @ [db_transaction]\<rparr>"
  let ?s0 = "\<lparr>u_db = ?sp, u_db_transaction = db_transaction,
              u_remaining_amount = o_amount db_order, u_transfers = [], u_ticks = 2\<rparr>"
  let ?r = "match_loop e market db_order (match_order ?sp db_order) ?s0"
  have tr: "transfers (run_matching e d market db_order db_transaction) = u_transfers (snd ?r)"
    by (cases ?r; cases "fst ?r") (simp_all add: run_matching_def Let_def)
  from assms have "c \<in> set (u_transfers (snd ?r))"
    by (simp only: tr)
  from bspec [OF match_loop_prices this] show ?thesis
    by simp
qed

text \<open>
  C3 (as the code has it). An incoming order with amount at most 0 gets no candidates (the
  guard at the head of \<^verbatim>\<open>match_order\<close>). For an incoming order with a positive amount,
  a BUY gets exactly the eligible resting SELLs (same market and outcome, amount above 0,
  state Active, price at most the incoming price) in ascending price order, and a SELL gets
  exactly the eligible resting BUYs (price at least the incoming price) in descending price
  order. So no settlement occurs against a SELL priced above an incoming BUY's price or a
  BUY priced below an incoming SELL's price: every transfer a submission sends carries the
  price of a resting order of the book of the opposite side, same market and outcome,
  amount above 0, state Active and within the price bound of the submitted side, and a
  submission with amount at most 0 sends no transfer.
\<close>

theorem match_order_candidates:
  "(o_amount new_order \<le> 0 \<longrightarrow> match_order d new_order = []) \<and>
   (0 < o_amount new_order \<and> o_side new_order = ''buy'' \<longrightarrow>
      mset (match_order d new_order) = mset (filter (eligible new_order) (orders d)) \<and>
      sorted (map o_price (match_order d new_order))) \<and>
   (0 < o_amount new_order \<and> o_side new_order = ''sell'' \<longrightarrow>
      mset (match_order d new_order) = mset (filter (eligible new_order) (orders d)) \<and>
      sorted (rev (map o_price (match_order d new_order)))) \<and>
   (\<forall>c\<in>set (transfers (create_order e d order)).
      \<exists>m\<in>set (orders d).
        fixed_point (o_price m) = Some (tr_price (fst c)) \<and>
        o_market_address m = oc_market_address order \<and> o_outcome m = oc_outcome order \<and>
        0 < o_amount m \<and> o_market_state m = ''Active'' \<and>
        (if oc_side order = ''buy''
         then o_side m = ''sell'' \<and> o_price m \<le> oc_price order
         else o_side m = ''buy'' \<and> oc_price order \<le> o_price m)) \<and>
   (oc_amount order \<le> 0 \<longrightarrow> transfers (create_order e d order) = [])"
proof (intro conjI impI)
  assume "o_amount new_order \<le> 0"
  then show "match_order d new_order = []"
    by (simp add: match_order_def)
next
  assume a: "0 < o_amount new_order \<and> o_side new_order = ''buy''"
  have "match_order d new_order = order_by_asc (filter (eligible new_order) (orders d))"
    using a by (auto simp: match_order_def Let_def eligible_def intro!: arg_cong[where f=order_by_asc] filter_cong)
  then show "mset (match_order d new_order) = mset (filter (eligible new_order) (orders d))"
    and "sorted (map o_price (match_order d new_order))"
    by (simp_all add: order_by_asc_def)
next
  assume a: "0 < o_amount new_order \<and> o_side new_order = ''sell''"
  have "match_order d new_order = order_by_desc (filter (eligible new_order) (orders d))"
    using a by (auto simp: match_order_def Let_def eligible_def intro!: arg_cong[where f=order_by_desc] filter_cong)
  then show "mset (match_order d new_order) = mset (filter (eligible new_order) (orders d))"
    and "sorted (rev (map o_price (match_order d new_order)))"
    by (simp_all add: order_by_desc_def flip: sorted_desc_iff)
next
  show "\<forall>c\<in>set (transfers (create_order e d order)).
      \<exists>m\<in>set (orders d).
        fixed_point (o_price m) = Some (tr_price (fst c)) \<and>
        o_market_address m = oc_market_address order \<and> o_outcome m = oc_outcome order \<and>
        0 < o_amount m \<and> o_market_state m = ''Active'' \<and>
        (if oc_side order = ''buy''
         then o_side m = ''sell'' \<and> o_price m \<le> oc_price order
         else o_side m = ''buy'' \<and> oc_price order \<le> o_price m)"
  proof (cases rule: create_order_cases [of e d order])
    case (rejected err)
    then show ?thesis by (simp add: rejected_def)
  next
    case (matching market user_address)
    let ?o = "make_db_order e d order user_address ''Active''"
    let ?t = "make_db_transaction e d order user_address"
    let ?sp = "\<lparr>orders = orders d @ [?o], transactions = transactions d @ [?t]\<rparr>"
    show ?thesis
    proof
      fix c assume "c \<in> set (transfers (create_order e d order))"
      then have "c \<in> set (transfers (run_matching e d market ?o ?t))"
        by (simp only: matching(5))
      from run_matching_transfers [OF this] obtain m where
        m: "m \<in> set (match_order ?sp ?o)"
          "fixed_point (o_price m) = Some (tr_price (fst c))"
        by blast
      have in_d: "m \<in> set (orders d)"
        using m(1) match_order_subset [of "orders d" ?o "transactions d @ [?t]"] by blast
      have fields: "o_market_address ?o = oc_market_address order"
        "o_outcome ?o = oc_outcome order" "o_side ?o = oc_side order"
        "o_price ?o = oc_price order"
        by (simp_all add: make_db_order_def)
      from match_order_member [OF m(1)] have
        "o_market_address m = oc_market_address order \<and> o_outcome m = oc_outcome order \<and>
         0 < o_amount m \<and> o_market_state m = ''Active'' \<and>
         (if oc_side order = ''buy''
          then o_side m = ''sell'' \<and> o_price m \<le> oc_price order
          else o_side m = ''buy'' \<and> oc_price order \<le> o_price m)"
        unfolding fields by (auto split: if_splits)
      then show "\<exists>m\<in>set (orders d).
        fixed_point (o_price m) = Some (tr_price (fst c)) \<and>
        o_market_address m = oc_market_address order \<and> o_outcome m = oc_outcome order \<and>
        0 < o_amount m \<and> o_market_state m = ''Active'' \<and>
        (if oc_side order = ''buy''
         then o_side m = ''sell'' \<and> o_price m \<le> oc_price order
         else o_side m = ''buy'' \<and> oc_price order \<le> o_price m)"
        using in_d m(2) by blast
    qed
  qed
next
  assume amt: "oc_amount order \<le> 0"
  show "transfers (create_order e d order) = []"
  proof (cases rule: create_order_cases [of e d order])
    case (rejected err)
    then show ?thesis by (simp add: rejected_def)
  next
    case (matching market user_address)
    let ?o = "make_db_order e d order user_address ''Active''"
    let ?t = "make_db_transaction e d order user_address"
    let ?sp = "\<lparr>orders = orders d @ [?o], transactions = transactions d @ [?t]\<rparr>"
    have "match_order ?sp ?o = []"
      using amt by (simp add: match_order_def make_db_order_def)
    then show ?thesis
      by (simp add: matching(5) run_matching_def Let_def)
  qed
qed

theorem match_order_candidates_witness:
  "0 < o_amount buy_order \<and> o_side buy_order = ''buy'' \<and>
   mset (match_order book buy_order) = mset (filter (eligible buy_order) (orders book)) \<and>
   sorted (map o_price (match_order book buy_order)) \<and>
   match_order book buy_order = [sell1, sell2] \<and>
   map (\<lambda>c. tr_price (fst c)) (transfers (create_order env_ok book buy_req))
     = [500000000000000000, 750000000000000000] \<and>
   fixed_point (o_price sell1) = Some 500000000000000000 \<and>
   fixed_point (o_price sell2) = Some 750000000000000000 \<and>
   o_price sell1 \<le> oc_price buy_req \<and> o_price sell2 \<le> oc_price buy_req \<and>
   oc_side buy_req = ''buy''"
proof -
  have h: "0 < o_amount buy_order \<and> o_side buy_order = ''buy''"
    by (simp add: buy_order_def)
  have m: "match_order book buy_order = [sell1, sell2]"
    by (simp add: match_order_def book_def buy_order_def sell1_def sell2_def
        order_by_asc_def Let_def)
  have t: "map (\<lambda>c. tr_price (fst c)) (transfers (create_order env_ok book buy_req))
             = [500000000000000000, 750000000000000000]"
    by (simp add: example_all_settle)
  have p: "fixed_point (o_price sell1) = Some 500000000000000000 \<and>
           fixed_point (o_price sell2) = Some 750000000000000000 \<and>
           o_price sell1 \<le> oc_price buy_req \<and> o_price sell2 \<le> oc_price buy_req \<and>
           oc_side buy_req = ''buy''"
    by (simp add: example_defs fixed_point_half fixed_point_three_quarters)
  show ?thesis
    using h m t p match_order_candidates [of buy_order book env_ok buy_req] by simp
qed

theorem match_order_zero_amount_counterexample:
  "match_order book (buy_order\<lparr>o_amount := 0\<rparr>) = [] \<and>
   filter (eligible (buy_order\<lparr>o_amount := 0\<rparr>)) (orders book) = [sell1, sell2]"
  by (simp add: match_order_def eligible_def book_def buy_order_def sell1_def sell2_def)

section \<open>How far the fixed-point price is from the exact product\<close>

lemma bit_length_upper: "n < 2 ^ bit_length n"
proof (induction n rule: bit_length.induct)
  case (1 n)
  show ?case
  proof (cases "n = 0")
    case True
    then show ?thesis by (simp add: bit_length.simps)
  next
    case False
    then have "n div 2 < 2 ^ bit_length (n div 2)"
      using "1" by simp
    then have "n < 2 * 2 ^ bit_length (n div 2)"
      by linarith
    then show ?thesis
      using False by (subst bit_length.simps) simp
  qed
qed

lemma bit_length_lower: "0 < n \<Longrightarrow> 2 ^ bit_length n \<le> 2 * n"
proof (induction n rule: bit_length.induct)
  case (1 n)
  show ?case
  proof (cases "n div 2 = 0")
    case True
    then have "n = 1" using "1.prems" by linarith
    then show ?thesis
      by (simp add: bit_length_numeral)
  next
    case False
    then have "2 ^ bit_length (n div 2) \<le> 2 * (n div 2)"
      using "1" by simp
    then have "2 * 2 ^ bit_length (n div 2) \<le> 2 * n"
      by linarith
    then show ?thesis
      using "1.prems" by (subst bit_length.simps) simp
  qed
qed

lemma round_half:
  fixes num den :: nat
  assumes "0 < den"
  defines "q \<equiv> num div den" and "rm \<equiv> num mod den"
  defines "r \<equiv> (if 2 * rm > den \<or> (2 * rm = den \<and> odd q) then q + 1 else q)"
  shows "\<bar>(of_nat r :: rat) - of_nat num / of_nat den\<bar> \<le> 1 / 2"
proof -
  have num: "num = q * den + rm" and rm: "rm < den"
    using assms by (simp_all add: q_def rm_def)
  have frac: "(of_nat num :: rat) / of_nat den = of_nat q + of_nat rm / of_nat den"
    using assms(1) by (simp add: num field_simps)
  show ?thesis
  proof (cases "2 * rm > den \<or> (2 * rm = den \<and> odd q)")
    case True
    then have "den \<le> 2 * rm" by auto
    then have "(of_nat den :: rat) \<le> 2 * of_nat rm"
      by (metis of_nat_le_iff of_nat_mult of_nat_numeral)
    moreover have "(of_nat rm :: rat) < of_nat den"
      using rm by simp
    ultimately show ?thesis
      using True assms(1) by (simp add: r_def frac field_simps abs_if)
  next
    case False
    then have "2 * rm \<le> den" by auto
    then have "2 * (of_nat rm :: rat) \<le> of_nat den"
      by (metis of_nat_le_iff of_nat_mult of_nat_numeral)
    then show ?thesis
      using False assms(1) by (simp add: r_def frac field_simps abs_if)
  qed
qed

lemma round_double_snd:
  "snd (round_double n d) =
     (if (if int (bit_length n) - int (bit_length d) - 53 \<ge> 0
          then n < d * 2 ^ nat (int (bit_length n) - int (bit_length d) - 53) * 2 ^ 53
          else n * 2 ^ nat (- (int (bit_length n) - int (bit_length d) - 53)) < d * 2 ^ 53)
      then int (bit_length n) - int (bit_length d) - 53
      else int (bit_length n) - int (bit_length d) - 53 + 1)"
  by (simp add: round_double_def Let_def)

lemma scale_lower:
  fixes n d A X :: nat
  assumes "d \<le> A" "A * X \<le> n"
  shows "d * X \<le> n"
  using assms by (meson le_trans mult_le_mono1)

lemma scale_upper:
  fixes A :: nat
  shows "A \<le> D \<Longrightarrow> n < A * X \<Longrightarrow> n < D * X"
  by (meson mult_le_mono1 less_le_trans)

lemma round_double_range:
  assumes n: "0 < n" and d: "0 < d" and k: "snd (round_double n d) = k"
  shows "(0 \<le> k \<longrightarrow> d * 2 ^ nat k * 2 ^ 52 \<le> n \<and> n < d * 2 ^ nat k * 2 ^ 53) \<and>
         (k < 0 \<longrightarrow> d * 2 ^ 52 \<le> n * 2 ^ nat (- k) \<and> n * 2 ^ nat (- k) < d * 2 ^ 53)"
proof -
  let ?bn = "bit_length n" and ?bd = "bit_length d"
  let ?k0 = "int ?bn - int ?bd - 53"
  define P :: nat where "P = 2 ^ 52"
  define A :: nat where "A = 2 ^ ?bd"
  define B :: nat where "B = 2 ^ ?bn"
  have p52: "(2::nat) ^ 52 = P" and p53: "(2::nat) ^ 53 = 2 * P"
    by (simp_all add: P_def)
  have nu: "n < B" and nl: "B \<le> 2 * n" and du: "d \<le> A" and dl: "A \<le> 2 * d"
    using bit_length_upper [of n] bit_length_lower [OF n]
      bit_length_upper [of d] bit_length_lower [OF d]
    by (simp_all add: A_def B_def)
  show ?thesis
  proof (cases "0 \<le> ?k0")
    case pos: True
    define K0 where "K0 = nat ?k0"
    define Q :: nat where "Q = 2 ^ K0"
    have bn: "?bn = ?bd + K0 + 53" using pos by (simp add: K0_def)
    have "B = A * Q * 2 ^ 53"
      unfolding A_def B_def Q_def bn power_add ..
    then have pw: "B = 2 * (A * Q * P)"
      unfolding p53 by (simp add: ac_simps)
    have test: "snd (round_double n d) = (if n < d * Q * (2 * P) then ?k0 else ?k0 + 1)"
      unfolding round_double_snd Q_def K0_def p53 using pos by simp
    show ?thesis
    proof (cases "n < d * Q * (2 * P)")
      case True
      then have kk: "k = ?k0" using k test by simp
      have nk: "nat k = K0" "0 \<le> k" using kk pos by (simp_all add: K0_def)
      have "A * (Q * P) \<le> n" using nl pw by (simp add: ac_simps)
      from scale_lower [OF du this] have "d * Q * P \<le> n" by (simp only: mult.assoc)
      then show ?thesis
        unfolding p52 p53 nk(1) Q_def [symmetric] using True nk(2) by simp
    next
      case False
      then have kk: "k = ?k0 + 1" using k test by simp
      have nk: "nat k = Suc K0" "0 \<le> k" using kk pos by (simp_all add: K0_def)
      have low: "d * (2 * Q) * P \<le> n" using False by (simp add: ac_simps)
      have "n < A * (2 * (Q * P))" using nu pw by (simp add: ac_simps)
      from scale_upper [OF dl this] have up: "n < d * (2 * Q) * (2 * P)" by (simp add: ac_simps)
      show ?thesis
        unfolding p52 p53 nk(1) power_Suc Q_def [symmetric] using low up nk(2) by simp
    qed
  next
    case neg: False
    define K0 where "K0 = nat (- ?k0)"
    define Q :: nat where "Q = 2 ^ K0"
    have K0: "0 < K0" using neg by (simp add: K0_def)
    have bn: "?bn + K0 = ?bd + 53" using neg by (simp add: K0_def)
    have "B * Q = A * 2 ^ 53"
      unfolding A_def B_def Q_def power_add [symmetric] bn ..
    then have pw: "B * Q = 2 * (A * P)"
      unfolding p53 by (simp add: ac_simps)
    have test: "snd (round_double n d) = (if n * Q < d * (2 * P) then ?k0 else ?k0 + 1)"
      unfolding round_double_snd Q_def K0_def p53 using neg by simp
    show ?thesis
    proof (cases "n * Q < d * (2 * P)")
      case True
      then have kk: "k = ?k0" using k test by simp
      have nk: "nat (- k) = K0" "k < 0" using kk neg by (simp_all add: K0_def)
      have "B * Q \<le> (2 * n) * Q" using nl by (rule mult_le_mono1)
      then have "A * P \<le> n * Q" unfolding pw by simp
      from scale_lower [OF du this] have "d * P \<le> n * Q" .
      then show ?thesis
        unfolding p52 p53 nk(1) Q_def [symmetric] using True nk(2) by simp
    next
      case False
      then have kk: "k = ?k0 + 1" using k test by simp
      obtain K where K: "K0 = Suc K" using K0 by (cases K0) simp_all
      define R :: nat where "R = 2 ^ K"
      have QR: "Q = 2 * R" by (simp add: Q_def R_def K)
      have low: "d * P \<le> n * R" using False unfolding QR by simp
      have "n * R < B * R" using nu by (simp add: R_def)
      moreover have "B * R = A * P" using pw unfolding QR by (simp add: ac_simps)
      ultimately have "n * R < A * P" by simp
      from scale_upper [OF dl this] have up: "n * R < d * (2 * P)" by (simp add: ac_simps)
      show ?thesis
      proof (cases "K = 0")
        case True
        then have k0: "k = 0" using kk neg K by (simp add: K0_def)
        have "R = 1" using True by (simp add: R_def)
        then show ?thesis
          unfolding p52 p53 k0 using low up by simp
      next
        case False
        then have nk: "k < 0" "nat (- k) = K" using kk neg K by (auto simp add: K0_def)
        show ?thesis
          unfolding p52 p53 nk(2) R_def [symmetric] using low up nk(1) by simp
      qed
    qed
  qed
qed

lemma scaled_bound_up:
  fixes T D N R :: rat
  assumes T: "0 < T" and D: "0 < D" and rg: "D * (T * 2 ^ 52) \<le> N"
    and h: "\<bar>R - N / (D * T)\<bar> \<le> 1 / 2"
  shows "\<bar>R * T - N / D\<bar> \<le> N / D / 2 ^ 53"
proof -
  define X where "X = N / D"
  have XT: "N / (D * T) = X / T" by (simp add: X_def)
  have "R * T - X = T * (R - X / T)"
    using T by (simp add: field_simps)
  then have "\<bar>R * T - X\<bar> = T * \<bar>R - X / T\<bar>"
    using T by (simp add: abs_mult)
  also have "\<dots> \<le> T * (1 / 2)"
    using h T unfolding XT by (intro mult_left_mono) simp_all
  finally have e1: "\<bar>R * T - X\<bar> \<le> T / 2" by simp
  have "T * 2 ^ 52 * D \<le> N" using rg by (simp add: ac_simps)
  then have "T * 2 ^ 52 \<le> X"
    unfolding X_def using D by (simp only: pos_le_divide_eq)
  then have "T / 2 \<le> X / 2 ^ 53" by simp
  with e1 show ?thesis unfolding X_def by (rule order_trans)
qed

lemma scaled_bound_down:
  fixes T D N R :: rat
  assumes T: "0 < T" and D: "0 < D" and rg: "D * 2 ^ 52 \<le> N * T"
    and h: "\<bar>R - N * T / D\<bar> \<le> 1 / 2"
  shows "\<bar>R / T - N / D\<bar> \<le> N / D / 2 ^ 53"
proof -
  define X where "X = N / D"
  have XT: "N * T / D = X * T" by (simp add: X_def)
  have "R / T - X = (R - X * T) / T"
    using T by (simp add: field_simps)
  then have "\<bar>R / T - X\<bar> = \<bar>R - X * T\<bar> / T"
    using T by (simp add: abs_divide)
  also have "\<dots> \<le> (1 / 2) / T"
    using h T unfolding XT by (intro divide_right_mono) simp_all
  finally have e1: "\<bar>R / T - X\<bar> \<le> (1 / 2) / T" .
  have "2 ^ 52 * D \<le> N * T" using rg by (simp add: ac_simps)
  then have "2 ^ 52 \<le> N * T / D"
    using D by (simp only: pos_le_divide_eq)
  then have "2 ^ 52 \<le> X * T" by (simp add: X_def)
  then have "1 / 2 \<le> X / 2 ^ 53 * T" by simp
  then have "(1 / 2) / T \<le> X / 2 ^ 53"
    using T by (simp only: pos_divide_le_eq)
  with e1 show ?thesis unfolding X_def by (rule order_trans)
qed


lemma div_trunc:
  fixes r M :: nat
  shows "(of_nat (r div M) :: rat) \<le> of_nat r / of_nat M \<and>
         (of_nat r :: rat) / of_nat M < of_nat (r div M) + 1"
  using floor_correct [of "of_nat r / of_nat M :: rat"]
  by (simp add: floor_divide_of_nat_eq)

lemma round_double_fst:
  "fst (round_double n d) =
     (let k = snd (round_double n d);
          num = (if k \<ge> 0 then n else n * 2 ^ nat (- k));
          den = (if k \<ge> 0 then d * 2 ^ nat k else d);
          q = num div den; rem = num mod den
      in (if 2 * rem > den \<or> (2 * rem = den \<and> odd q) then q + 1 else q))"
  by (simp only: round_double_def Let_def fst_conv snd_conv)

lemma round_double_error:
  assumes n: "0 < n" and d: "0 < d" and rd: "round_double n d = (r, k)"
  shows "(0 \<le> k \<longrightarrow> \<bar>(of_nat r :: rat) * 2 ^ nat k - of_nat n / of_nat d\<bar>
                        \<le> of_nat n / of_nat d / 2 ^ 53) \<and>
         (k < 0 \<longrightarrow> \<bar>(of_nat r :: rat) / 2 ^ nat (- k) - of_nat n / of_nat d\<bar>
                        \<le> of_nat n / of_nat d / 2 ^ 53)"
proof (intro conjI impI)
  have sk: "snd (round_double n d) = k" and fr: "fst (round_double n d) = r"
    using rd by simp_all
  note rg = round_double_range [OF n d sk]
  have dr: "(0::rat) < of_nat d" using d by simp
  {
    assume k0: "0 \<le> k"
    define K where "K = nat k"
    define den where "den = d * 2 ^ K"
    have dp: "0 < den" using d by (simp add: den_def)
    have Tp: "(0::rat) < 2 ^ K" by simp
    have r: "r = (if 2 * (n mod den) > den \<or> (2 * (n mod den) = den \<and> odd (n div den))
                  then n div den + 1 else n div den)"
      unfolding fr [symmetric] round_double_fst sk Let_def using k0 by (simp add: den_def K_def)
    have "\<bar>(of_nat r :: rat) - of_nat n / of_nat den\<bar> \<le> 1 / 2"
      unfolding r by (rule round_half [OF dp])
    then have h: "\<bar>(of_nat r :: rat) - of_nat n / (of_nat d * 2 ^ K)\<bar> \<le> 1 / 2"
      by (simp add: den_def)
    have "d * 2 ^ K * 2 ^ 52 \<le> n" using rg k0 by (simp add: K_def)
    then have "(of_nat (d * 2 ^ K * 2 ^ 52) :: rat) \<le> of_nat n"
      by (simp only: of_nat_le_iff)
    then have rg': "(of_nat d :: rat) * (2 ^ K * 2 ^ 52) \<le> of_nat n"
      by (simp add: ac_simps)
    show "\<bar>(of_nat r :: rat) * 2 ^ nat k - of_nat n / of_nat d\<bar> \<le> of_nat n / of_nat d / 2 ^ 53"
      unfolding K_def [symmetric] by (rule scaled_bound_up [OF Tp dr rg' h])
  }
  {
    assume k0: "k < 0"
    define K where "K = nat (- k)"
    define num where "num = n * 2 ^ K"
    have Tp: "(0::rat) < 2 ^ K" by simp
    have r: "r = (if 2 * (num mod d) > d \<or> (2 * (num mod d) = d \<and> odd (num div d))
                  then num div d + 1 else num div d)"
      unfolding fr [symmetric] round_double_fst sk Let_def using k0 by (simp add: num_def K_def)
    have "\<bar>(of_nat r :: rat) - of_nat num / of_nat d\<bar> \<le> 1 / 2"
      unfolding r by (rule round_half [OF d])
    then have h: "\<bar>(of_nat r :: rat) - of_nat n * 2 ^ K / of_nat d\<bar> \<le> 1 / 2"
      by (simp add: num_def)
    have "d * 2 ^ 52 \<le> n * 2 ^ K" using rg k0 by (simp add: K_def)
    then have "(of_nat (d * 2 ^ 52) :: rat) \<le> of_nat (n * 2 ^ K)"
      by (simp only: of_nat_le_iff)
    then have rg': "(of_nat d :: rat) * 2 ^ 52 \<le> of_nat n * 2 ^ K"
      by (simp add: ac_simps)
    show "\<bar>(of_nat r :: rat) / 2 ^ nat (- k) - of_nat n / of_nat d\<bar> \<le> of_nat n / of_nat d / 2 ^ 53"
      unfolding K_def [symmetric] by (rule scaled_bound_down [OF Tp dr rg' h])
  }
qed

lemma fixed_point_pos_error:
  assumes n: "0 < n" and d: "0 < d" and fp: "fixed_point_pos n d = Some v"
  shows "\<bar>(of_int v :: rat) - of_nat n / of_nat d\<bar> < 1 + of_nat n / of_nat d / 2 ^ 53"
proof -
  obtain r k where rd: "round_double n d = (r, k)"
    by (cases "round_double n d")
  note er = round_double_error [OF n d rd]
  define X :: rat where "X = of_nat n / of_nat d"
  define B :: rat where "B = X / 2 ^ 53"
  show ?thesis
  proof (cases "0 \<le> k")
    case True
    then have v: "v = int (r * 2 ^ nat k)"
      using fp rd by (simp add: fixed_point_pos_def split: if_splits)
    have "(of_int v :: rat) = of_nat r * 2 ^ nat k"
      by (simp add: v)
    with er True have "\<bar>(of_int v :: rat) - X\<bar> \<le> B"
      by (simp add: X_def B_def)
    then have "\<bar>(of_int v :: rat) - X\<bar> < 1 + B" by linarith
    then show ?thesis by (simp only: X_def B_def)
  next
    case False
    define K where "K = nat (- k)"
    define Y :: rat where "Y = of_nat r / 2 ^ K"
    have v: "v = int (r div 2 ^ K)"
      using fp rd False by (simp add: fixed_point_pos_def K_def split: if_splits)
    have V: "(of_int v :: rat) = of_nat (r div 2 ^ K)"
      by (simp add: v)
    have "(of_nat (2 ^ K) :: rat) = 2 ^ K" by simp
    with div_trunc [of r "2 ^ K"] have "(of_int v :: rat) \<le> Y" "Y < of_int v + 1"
      unfolding V Y_def by simp_all
    moreover have "\<bar>Y - X\<bar> \<le> B"
      using er False by (simp add: X_def B_def Y_def K_def)
    ultimately have "\<bar>(of_int v :: rat) - X\<bar> < 1 + B" by linarith
    then show ?thesis by (simp only: X_def B_def)
  qed
qed

lemma fixed_point_error:
  assumes fp: "fixed_point p = Some v"
  shows "\<bar>(of_int v :: rat) - p * 10 ^ 18\<bar> < 1 + \<bar>p\<bar> * 10 ^ 18 / 2 ^ 53"
proof -
  obtain a b where q: "quotient_of p = (a, b)"
    by (cases "quotient_of p")
  have b: "0 < b" using quotient_of_denom_pos [OF q] .
  have p: "p = of_int a / of_int b" using quotient_of_div [OF q] .
  show ?thesis
  proof (cases "a = 0")
    case True
    then have "v = 0" "p = 0" using fp q p by (simp_all add: fixed_point_def)
    then show ?thesis by simp
  next
    case False
    define n where "n = nat \<bar>a\<bar> * 10 ^ 18"
    define d where "d = nat b"
    obtain w where w: "fixed_point_pos n d = Some w" and v: "v = (if a < 0 then - w else w)"
      using fp q False by (auto simp add: fixed_point_def n_def d_def)
    have n: "0 < n" using False by (simp add: n_def)
    have d: "0 < d" using b by (simp add: d_def)
    define X :: rat where "X = \<bar>p\<bar> * 10 ^ 18"
    have "(of_nat n :: rat) = \<bar>of_int a\<bar> * 10 ^ 18"
      by (simp add: n_def)
    moreover have "(of_nat d :: rat) = of_int b"
      using b by (simp add: d_def)
    ultimately have X: "(of_nat n :: rat) / of_nat d = X"
      using b by (simp add: X_def p abs_divide)
    have e: "\<bar>(of_int w :: rat) - X\<bar> < 1 + X / 2 ^ 53"
      using fixed_point_pos_error [OF n d w] unfolding X .
    have "\<bar>(of_int v :: rat) - p * 10 ^ 18\<bar> = \<bar>(of_int w :: rat) - X\<bar>"
    proof (cases "a < 0")
      case True
      then have "p < 0" using b by (simp add: p divide_neg_pos)
      then have "X = - (p * 10 ^ 18)" by (simp add: X_def)
      moreover have "(of_int v :: rat) = - of_int w" using True v by simp
      ultimately show ?thesis by (simp only: abs_minus_commute [of "of_int w"])
    next
      case False
      then have "0 \<le> p" using b by (simp add: p)
      then have "X = p * 10 ^ 18" by (simp add: X_def)
      moreover have "(of_int v :: rat) = of_int w" using False v by simp
      ultimately show ?thesis by (simp only:)
    qed
    with e show ?thesis by (simp only: X_def)
  qed
qed

lemma quotient_of_055:
  "quotient_of (2476979795053773 / 4503599627370496) = (2476979795053773, 4503599627370496)"
  using quotient_of_dyadic [of 2476979795053773 52] by simp

lemma fixed_point_055:
  "fixed_point (2476979795053773 / 4503599627370496) = Some 550000000000000064"
  by (simp add: fixed_point_def quotient_of_055 fixed_point_pos_def round_double_def
      bit_length_numeral Let_def)

lemma example_055:
  "transfers (create_order env_ok book55 buy_req55) =
     [(\<lparr>tr_market = ''0xM'', tr_seller = ''0xA'', tr_buyer = ''0xC'', tr_is_yes = True,
        tr_price = 550000000000000064, tr_amount = 5\<rparr>, Receipt 1)]"
  by (simp add: run_defs env_ok_def sell55_def txn55_def book55_def buy_req55_def
      fixed_point_055)

text \<open>
  C9 (as the code has it). The price argument of every transfer a submission sends is
  \<^verbatim>\<open>int(transaction_price * 10**18)\<close> for the price of a resting order of the book: the
  double product rounded to 53 bits and then truncated. It is within
  \<open>1 + \<bar>price\<bar> * 10^18 / 2^53\<close> of the exact product of the price and \<open>10^18\<close>, and it
  need not be equal to it.
\<close>

theorem price_argument_within_rounding:
  "\<forall>c\<in>set (transfers (create_order e d order)).
     \<exists>m\<in>set (orders d).
       fixed_point (o_price m) = Some (tr_price (fst c)) \<and>
       \<bar>(of_int (tr_price (fst c)) :: rat) - o_price m * 10 ^ 18\<bar>
         < 1 + \<bar>o_price m\<bar> * 10 ^ 18 / 2 ^ 53"
proof (cases rule: create_order_cases [of e d order])
  case (rejected err)
  then show ?thesis by (simp add: rejected_def)
next
  case (matching market user_address)
  let ?o = "make_db_order e d order user_address ''Active''"
  let ?t = "make_db_transaction e d order user_address"
  let ?sp = "\<lparr>orders = orders d @ [?o], transactions = transactions d @ [?t]\<rparr>"
  show ?thesis
  proof
    fix c assume "c \<in> set (transfers (create_order e d order))"
    then have "c \<in> set (transfers (run_matching e d market ?o ?t))"
      by (simp only: matching(5))
    from run_matching_transfers [OF this] obtain m where
      m: "m \<in> set (match_order ?sp ?o)"
        "fixed_point (o_price m) = Some (tr_price (fst c))"
      by blast
    have in_d: "m \<in> set (orders d)"
      using m(1) match_order_subset [of "orders d" ?o "transactions d @ [?t]"] by blast
    from fixed_point_error [OF m(2)] in_d m(2)
    show "\<exists>m\<in>set (orders d).
       fixed_point (o_price m) = Some (tr_price (fst c)) \<and>
       \<bar>(of_int (tr_price (fst c)) :: rat) - o_price m * 10 ^ 18\<bar>
         < 1 + \<bar>o_price m\<bar> * 10 ^ 18 / 2 ^ 53"
      by blast
  qed
qed

theorem price_argument_within_rounding_witness:
  "map (\<lambda>c. tr_price (fst c)) (transfers (create_order env_ok book55 buy_req55))
     = [550000000000000064] \<and>
   orders book55 = [sell55] \<and>
   fixed_point (o_price sell55) = Some 550000000000000064 \<and>
   \<bar>(of_int 550000000000000064 :: rat) - o_price sell55 * 10 ^ 18\<bar>
     < 1 + \<bar>o_price sell55\<bar> * 10 ^ 18 / 2 ^ 53"
proof -
  have "\<forall>c\<in>set (transfers (create_order env_ok book55 buy_req55)).
     \<exists>m\<in>set (orders book55).
       fixed_point (o_price m) = Some (tr_price (fst c)) \<and>
       \<bar>(of_int (tr_price (fst c)) :: rat) - o_price m * 10 ^ 18\<bar>
         < 1 + \<bar>o_price m\<bar> * 10 ^ 18 / 2 ^ 53"
    using price_argument_within_rounding [of env_ok book55 buy_req55] by blast
  then show ?thesis
    by (simp add: example_055) (simp add: book55_def sell55_def fixed_point_055)
qed

theorem price_argument_not_exact_counterexample:
  "map (\<lambda>c. tr_price (fst c)) (transfers (create_order env_ok book55 buy_req55))
     = [550000000000000064] \<and>
   map o_price (orders book55) = [2476979795053773 / 4503599627370496] \<and>
   (of_int 550000000000000064 :: rat) \<noteq> 2476979795053773 / 4503599627370496 * 10 ^ 18 \<and>
   (550000000000000064 :: int) \<noteq> 55 * 10 ^ 16"
  by (simp add: example_055) (simp add: book55_def sell55_def)

end
